theory Spec2Isabelle
  imports Main "HOL-Library.Word" "HOL-Library.Monad_Syntax" "HOL-Library.Sublist" "HOL-Library.Multiset"
begin

unbundle bit_operations_syntax

section \<open>Data model of sched/semaphore/sem_holder.c\<close>

text \<open>
  Thread handles (\<^verbatim>\<open>struct tcb_s *\<close>) and semaphore handles (\<^verbatim>\<open>sem_t *\<close>) are
  addresses; a nullable pointer is an \<open>option\<close> with \<open>None\<close> for \<^verbatim>\<open>NULL\<close>.
  Priorities are \<^verbatim>\<open>uint8_t\<close>.
\<close>

type_synonym tid = nat
type_synonym semid = nat
type_synonym prio = "8 word"

text \<open>
  A \<^verbatim>\<open>struct semholder_s *\<close> points either into the static array
  \<^verbatim>\<open>g_holderalloc\<close> (\<^verbatim>\<open>CONFIG_SEM_PREALLOCHOLDERS > 0\<close>) or at one of the two
  holders built into a semaphore (\<^verbatim>\<open>&sem->holder[i]\<close>).
\<close>

datatype holder_ptr = Prealloc nat | Builtin semid nat

text \<open>
  Modelled from the spec: \<^verbatim>\<open>struct semholder_s\<close>, \<^verbatim>\<open>sem_t\<close>, \<^verbatim>\<open>struct semboost_s\<close> and
  \<^verbatim>\<open>struct tcb_s\<close> are declared in headers; the records below carry the fields the
  source file reads and writes. \<open>flink\<close> links nodes of \<^verbatim>\<open>g_holderalloc\<close> by index.
  \<open>counts\<close> is a 16-bit signed field (\<^verbatim>\<open>int16_t\<close>): \<^verbatim>\<open>counts++\<close> and \<^verbatim>\<open>counts--\<close> wrap
  modulo \<open>2 ^ 16\<close>, and the comparisons with 0 read it as a signed number (\<open>sint\<close>).
\<close>

record semholder_s =
  flink :: "nat option"
  htcb :: "tid option"
  counts :: "16 word"

record sem_t =
  semcount :: int
  flags :: "8 word"
  hhead :: "nat option"
  holder :: "semholder_s \<times> semholder_s"

record semboost_s =
  boost_sem :: semid
  priority :: prio

record tcb_s =
  sched_priority :: prio
  base_priority :: prio
  nsem_boosts :: nat
  sem_boosts :: "semboost_s list"

text \<open>Build-time configuration.\<close>

record config =
  CONFIG_SEM_PREALLOCHOLDERS :: nat
  CONFIG_SEM_NNESTPRIO :: nat
  CONFIG_DEBUG_ASSERTIONS :: bool

text \<open>
  What the file does to its collaborators is recorded in order: the scheduler calls it
  issues and the lines it logs.
\<close>

datatype event =
    Set_priority tid prio
  | Reprioritize tid prio
  | Serr_insufficient_holders
  | Swarn_stale_handle "tid option"
  | Serr_out_of_boost_slots tid

record kernel =
  g_holderalloc :: "semholder_s list"
  g_freeholders :: "nat option"
  sems :: "semid \<Rightarrow> sem_t"
  tcbs :: "tid \<Rightarrow> tcb_s"
  active :: "tid set"
  running :: tid
  interrupt_context :: bool
  trace :: "event list"

text \<open>A \<^verbatim>\<open>DEBUGASSERT\<close> that fails stops the kernel; a loop that never ends returns \<open>None\<close>.\<close>

datatype 'a result = Ok 'a | Assertion_failed

definition DEBUGASSERT :: "config \<Rightarrow> bool \<Rightarrow> 'a \<Rightarrow> 'a result" where
  "DEBUGASSERT cfg c k = (if CONFIG_DEBUG_ASSERTIONS cfg \<and> \<not> c then Assertion_failed else Ok k)"

subsection \<open>Collaborators\<close>

text \<open>
  Modelled from the spec: the scheduler and the logger are external collaborators
  (section 6). \<open>verify_tcb\<close> is true iff the handle still refers to a live thread;
  \<open>set_priority\<close> and \<open>reprioritize\<close> give the thread the priority asked for and never
  switch context synchronously; the flag bit is \<^verbatim>\<open>PRIOINHERIT_FLAGS_DISABLE\<close>.
\<close>

definition PRIOINHERIT_FLAGS_DISABLE :: "8 word" where
  "PRIOINHERIT_FLAGS_DISABLE = 1"

definition this_task :: "kernel \<Rightarrow> tid" where
  "this_task st = running st"

definition up_interrupt_context :: "kernel \<Rightarrow> bool" where
  "up_interrupt_context st = interrupt_context st"

definition nxsched_verify_tcb :: "kernel \<Rightarrow> tid option \<Rightarrow> bool" where
  "nxsched_verify_tcb st t = (case t of None \<Rightarrow> False | Some x \<Rightarrow> x \<in> active st)"

definition log_event :: "event \<Rightarrow> kernel \<Rightarrow> kernel" where
  "log_event e st = st\<lparr>trace := trace st @ [e]\<rparr>"

definition tcb_upd :: "tid \<Rightarrow> (tcb_s \<Rightarrow> tcb_s) \<Rightarrow> kernel \<Rightarrow> kernel" where
  "tcb_upd t f st = st\<lparr>tcbs := (tcbs st)(t := f (tcbs st t))\<rparr>"

definition nxsched_set_priority :: "tid \<Rightarrow> prio \<Rightarrow> kernel \<Rightarrow> kernel" where
  "nxsched_set_priority t p st =
     log_event (Set_priority t p) (tcb_upd t (\<lambda>c. c\<lparr>sched_priority := p\<rparr>) st)"

definition nxsched_reprioritize :: "tid \<Rightarrow> prio \<Rightarrow> kernel \<Rightarrow> kernel" where
  "nxsched_reprioritize t p st =
     log_event (Reprioritize t p) (tcb_upd t (\<lambda>c. c\<lparr>sched_priority := p\<rparr>) st)"

subsection \<open>Reading and writing through a holder pointer\<close>

definition holder_get :: "semholder_s \<times> semholder_s \<Rightarrow> nat \<Rightarrow> semholder_s" where
  "holder_get a i = (if i = 0 then fst a else snd a)"

definition holder_set ::
  "nat \<Rightarrow> (semholder_s \<Rightarrow> semholder_s) \<Rightarrow> semholder_s \<times> semholder_s \<Rightarrow> semholder_s \<times> semholder_s" where
  "holder_set i f a = (if i = 0 then (f (fst a), snd a) else (fst a, f (snd a)))"

definition sem_upd :: "semid \<Rightarrow> (sem_t \<Rightarrow> sem_t) \<Rightarrow> kernel \<Rightarrow> kernel" where
  "sem_upd s f st = st\<lparr>sems := (sems st)(s := f (sems st s))\<rparr>"

definition node_upd :: "nat \<Rightarrow> (semholder_s \<Rightarrow> semholder_s) \<Rightarrow> kernel \<Rightarrow> kernel" where
  "node_upd n f st = st\<lparr>g_holderalloc := (g_holderalloc st)[n := f (g_holderalloc st ! n)]\<rparr>"

fun holder_at :: "kernel \<Rightarrow> holder_ptr \<Rightarrow> semholder_s" where
  "holder_at st (Prealloc n) = g_holderalloc st ! n"
| "holder_at st (Builtin s i) = holder_get (holder (sems st s)) i"

fun holder_upd :: "holder_ptr \<Rightarrow> (semholder_s \<Rightarrow> semholder_s) \<Rightarrow> kernel \<Rightarrow> kernel" where
  "holder_upd (Prealloc n) f st = node_upd n f st"
| "holder_upd (Builtin s i) f st = sem_upd s (\<lambda>m. m\<lparr>holder := holder_set i f (holder m)\<rparr>) st"

section \<open>The holder store\<close>

subsection \<open>nxsem_allocholder\<close>

definition nxsem_allocholder ::
  "config \<Rightarrow> semid \<Rightarrow> kernel \<Rightarrow> (holder_ptr option \<times> kernel) result" where
  "nxsem_allocholder cfg s st =
     (let (pholder, st') =
        (if CONFIG_SEM_PREALLOCHOLDERS cfg > 0 then
           (case g_freeholders st of
              Some p \<Rightarrow>
                let st1 = st\<lparr>g_freeholders := flink (g_holderalloc st ! p)\<rparr>;
                    st2 = node_upd p (\<lambda>h. h\<lparr>flink := hhead (sems st1 s)\<rparr>) st1;
                    st3 = sem_upd s (\<lambda>m. m\<lparr>hhead := Some p\<rparr>) st2;
                    st4 = node_upd p (\<lambda>h. h\<lparr>counts := 0\<rparr>) st3
                in (Some (Prealloc p), st4)
            | None \<Rightarrow> (None, log_event Serr_insufficient_holders st))
         else if htcb (holder_at st (Builtin s 0)) = None then
           (Some (Builtin s 0), holder_upd (Builtin s 0) (\<lambda>h. h\<lparr>counts := 0\<rparr>) st)
         else if htcb (holder_at st (Builtin s 1)) = None then
           (Some (Builtin s 1), holder_upd (Builtin s 1) (\<lambda>h. h\<lparr>counts := 0\<rparr>) st)
         else (None, log_event Serr_insufficient_holders st))
      in DEBUGASSERT cfg (pholder \<noteq> None) (pholder, st'))"

subsection \<open>nxsem_findholder\<close>

partial_function (option) findholder_list ::
  "semholder_s list \<Rightarrow> nat option \<Rightarrow> tid option \<Rightarrow> nat option option" where
  "findholder_list heap pholder t =
     (case pholder of
        None \<Rightarrow> Some None
      | Some p \<Rightarrow>
          if htcb (heap ! p) = t then Some (Some p)
          else findholder_list heap (flink (heap ! p)) t)"

declare findholder_list.simps [code]

function findholder_array :: "kernel \<Rightarrow> semid \<Rightarrow> tid option \<Rightarrow> nat \<Rightarrow> holder_ptr option" where
  "findholder_array st s t i =
     (if i < 2 then
        (if htcb (holder_at st (Builtin s i)) = t then Some (Builtin s i)
         else findholder_array st s t (i + 1))
      else None)"
  by pat_completeness auto
termination
  by (relation "measure (\<lambda>(st, s, t, i). 2 - i)") auto

declare findholder_array.simps [simp del]

definition nxsem_findholder ::
  "config \<Rightarrow> semid \<Rightarrow> tid option \<Rightarrow> kernel \<Rightarrow> holder_ptr option option" where
  "nxsem_findholder cfg s t st =
     (if CONFIG_SEM_PREALLOCHOLDERS cfg > 0 then
        map_option (map_option Prealloc)
          (findholder_list (g_holderalloc st) (hhead (sems st s)) t)
      else Some (findholder_array st s t 0))"

subsection \<open>nxsem_findorallocateholder\<close>

definition nxsem_findorallocateholder ::
  "config \<Rightarrow> semid \<Rightarrow> tid option \<Rightarrow> kernel \<Rightarrow> (holder_ptr option \<times> kernel) result option" where
  "nxsem_findorallocateholder cfg s t st =
     (case nxsem_findholder cfg s t st of
        None \<Rightarrow> None
      | Some (Some pholder) \<Rightarrow> Some (Ok (Some pholder, st))
      | Some None \<Rightarrow> Some (nxsem_allocholder cfg s st))"

subsection \<open>nxsem_freeholder\<close>

text \<open>
  The search loop of the pooled regime,
  \<^verbatim>\<open>for (prev = NULL, curr = sem->hhead; curr && curr != pholder; prev = curr, curr = curr->flink);\<close>
\<close>

partial_function (option) freeholder_search ::
  "semholder_s list \<Rightarrow> holder_ptr \<Rightarrow> nat option \<Rightarrow> nat option \<Rightarrow> (nat option \<times> nat option) option" where
  "freeholder_search heap pholder prev cur =
     (case cur of
        None \<Rightarrow> Some (prev, cur)
      | Some c \<Rightarrow>
          if Prealloc c \<noteq> pholder then freeholder_search heap pholder cur (flink (heap ! c))
          else Some (prev, cur))"

declare freeholder_search.simps [code]

definition nxsem_freeholder :: "config \<Rightarrow> semid \<Rightarrow> holder_ptr \<Rightarrow> kernel \<Rightarrow> kernel option" where
  "nxsem_freeholder cfg s pholder st =
     (let st1 = holder_upd pholder (\<lambda>h. h\<lparr>htcb := None\<rparr>) st;
          st2 = holder_upd pholder (\<lambda>h. h\<lparr>counts := 0\<rparr>) st1
      in if CONFIG_SEM_PREALLOCHOLDERS cfg > 0 then
           (case freeholder_search (g_holderalloc st2) pholder None (hhead (sems st2 s)) of
              None \<Rightarrow> None
            | Some (prev, None) \<Rightarrow> Some st2
            | Some (prev, Some c) \<Rightarrow>
                let st3 = (case prev of
                             Some q \<Rightarrow> node_upd q (\<lambda>h. h\<lparr>flink := flink (holder_at st2 pholder)\<rparr>) st2
                           | None \<Rightarrow> sem_upd s (\<lambda>m. m\<lparr>hhead := flink (holder_at st2 pholder)\<rparr>) st2);
                    st4 = holder_upd pholder (\<lambda>h. h\<lparr>flink := g_freeholders st3\<rparr>) st3
                in Some (st4\<lparr>g_freeholders := Some c\<rparr>))
         else Some st2)"

subsection \<open>nxsem_findandfreeholder\<close>

definition nxsem_findandfreeholder :: "config \<Rightarrow> semid \<Rightarrow> tid option \<Rightarrow> kernel \<Rightarrow> kernel option" where
  "nxsem_findandfreeholder cfg s t st =
     (case nxsem_findholder cfg s t st of
        None \<Rightarrow> None
      | Some None \<Rightarrow> Some st
      | Some (Some pholder) \<Rightarrow>
          if sint (counts (holder_at st pholder)) \<le> 0 then nxsem_freeholder cfg s pholder st
          else Some st)"

subsection \<open>nxsem_foreachholder\<close>

type_synonym holderhandler_t =
  "holder_ptr \<Rightarrow> semid \<Rightarrow> tid option \<Rightarrow> kernel \<Rightarrow> (int \<times> kernel) option"

text \<open>
  Pooled regime:
  \<^verbatim>\<open>for (pholder = sem->hhead; pholder && ret == 0; pholder = next)\<close>, with
  \<^verbatim>\<open>next = pholder->flink\<close> read before the handler runs.
\<close>

partial_function (option) foreachholder_list ::
  "holderhandler_t \<Rightarrow> semid \<Rightarrow> tid option \<Rightarrow> nat option \<Rightarrow> int \<Rightarrow> kernel \<Rightarrow> (int \<times> kernel) option" where
  "foreachholder_list handler s arg pholder ret st =
     (case pholder of
        None \<Rightarrow> Some (ret, st)
      | Some p \<Rightarrow>
          if ret = 0 then
            (let next = flink (g_holderalloc st ! p) in
             if htcb (g_holderalloc st ! p) \<noteq> None then
               (case handler (Prealloc p) s arg st of
                  None \<Rightarrow> None
                | Some (ret', st') \<Rightarrow> foreachholder_list handler s arg next ret' st')
             else foreachholder_list handler s arg next ret st)
          else Some (ret, st))"

declare foreachholder_list.simps [code]

text \<open>Inline regime: \<^verbatim>\<open>for (i = 0; i < 2; i++)\<close> over \<^verbatim>\<open>sem->holder[i]\<close>.\<close>

function foreachholder_array ::
  "holderhandler_t \<Rightarrow> semid \<Rightarrow> tid option \<Rightarrow> nat \<Rightarrow> int \<Rightarrow> kernel \<Rightarrow> (int \<times> kernel) option" where
  "foreachholder_array handler s arg i ret st =
     (if i < 2 then
        (if htcb (holder_at st (Builtin s i)) \<noteq> None then
           (case handler (Builtin s i) s arg st of
              None \<Rightarrow> None
            | Some (ret', st') \<Rightarrow> foreachholder_array handler s arg (i + 1) ret' st')
         else foreachholder_array handler s arg (i + 1) ret st)
      else Some (ret, st))"
  by pat_completeness auto
termination
  by (relation "measure (\<lambda>(handler, s, arg, i, ret, st). 2 - i)") auto

declare foreachholder_array.simps [simp del]

definition nxsem_foreachholder ::
  "config \<Rightarrow> semid \<Rightarrow> holderhandler_t \<Rightarrow> tid option \<Rightarrow> kernel \<Rightarrow> (int \<times> kernel) option" where
  "nxsem_foreachholder cfg s handler arg st =
     (if CONFIG_SEM_PREALLOCHOLDERS cfg > 0 then
        foreachholder_list handler s arg (hhead (sems st s)) 0 st
      else foreachholder_array handler s arg 0 0 st)"

subsection \<open>nxsem_recoverholders\<close>

definition nxsem_recoverholders :: "config \<Rightarrow> holderhandler_t" where
  "nxsem_recoverholders cfg pholder s arg st =
     (case nxsem_freeholder cfg s pholder st of None \<Rightarrow> None | Some st' \<Rightarrow> Some (0, st'))"

section \<open>The boost engine\<close>

subsection \<open>nxsem_boostholderprio\<close>

text \<open>
  \<open>arg\<close> is the caller's \<^verbatim>\<open>rtcb\<close> (the running task, never \<^verbatim>\<open>NULL\<close>); \<open>ht\<close> is
  dereferenced only after \<^verbatim>\<open>nxsched_verify_tcb\<close> accepted it.
\<close>

definition nxsem_boostholderprio :: "config \<Rightarrow> holderhandler_t" where
  "nxsem_boostholderprio cfg pholder s arg st =
     (let ht = htcb (holder_at st pholder) in
      if \<not> nxsched_verify_tcb st ht then
        (case nxsem_freeholder cfg s pholder (log_event (Swarn_stale_handle ht) st) of
           None \<Rightarrow> None
         | Some st' \<Rightarrow> Some (0, st'))
      else
        (case (ht, arg) of
           (Some h, Some rtcb) \<Rightarrow>
             if CONFIG_SEM_NNESTPRIO cfg > 0 then
               (if sched_priority (tcbs st rtcb) > base_priority (tcbs st h) then
                  (if nsem_boosts (tcbs st h) < CONFIG_SEM_NNESTPRIO cfg then
                     let i = nsem_boosts (tcbs st h);
                         st1 = tcb_upd h (\<lambda>c. c\<lparr>nsem_boosts := nsem_boosts c + 1\<rparr>) st;
                         st2 = tcb_upd h (\<lambda>c. c\<lparr>sem_boosts :=
                                 (sem_boosts c)[i := (sem_boosts c ! i)\<lparr>boost_sem := s\<rparr>]\<rparr>) st1;
                         st3 = tcb_upd h (\<lambda>c. c\<lparr>sem_boosts :=
                                 (sem_boosts c)[i := (sem_boosts c ! i)
                                    \<lparr>priority := sched_priority (tcbs st2 rtcb)\<rparr>]\<rparr>) st2;
                         bp = priority (sem_boosts (tcbs st3 h) ! i)
                     in if bp > sched_priority (tcbs st3 h)
                        then Some (0, nxsched_set_priority h bp st3)
                        else Some (0, st3)
                   else Some (0, log_event (Serr_out_of_boost_slots h) st))
                else Some (0, st))
             else
               (if sched_priority (tcbs st rtcb) > sched_priority (tcbs st h)
                then Some (0, nxsched_set_priority h (sched_priority (tcbs st rtcb)) st)
                else Some (0, st))
         | _ \<Rightarrow> Some (0, st)))"

subsection \<open>nxsem_verifyholder\<close>

text \<open>Compiled only with \<^verbatim>\<open>CONFIG_DEBUG_ASSERTIONS\<close>; its checks are under \<^verbatim>\<open>#if 0\<close>.\<close>

definition nxsem_verifyholder :: holderhandler_t where
  "nxsem_verifyholder pholder s arg st = Some (0, st)"

section \<open>The restore engine\<close>

subsection \<open>The ledger loops of nxsem_restoreholderprio\<close>

text \<open>
  \<^verbatim>\<open>for (int i = 0; i < htcb->nsem_boosts; i++)\<close> discarding every boost of the semaphore:
  a match copies the last record over slot \<open>i\<close>, drops the count and rechecks slot \<open>i\<close>.
\<close>

function discard_boosts :: "semid \<Rightarrow> nat \<Rightarrow> tcb_s \<Rightarrow> tcb_s" where
  "discard_boosts s i c =
     (if i < nsem_boosts c then
        (if boost_sem (sem_boosts c ! i) = s then
           discard_boosts s i
             (c\<lparr>sem_boosts := (sem_boosts c)[i := sem_boosts c ! (nsem_boosts c - 1)],
                nsem_boosts := nsem_boosts c - 1\<rparr>)
         else discard_boosts s (i + 1) c)
      else c)"
  by pat_completeness auto
termination
  by (relation "measure (\<lambda>(s, i, c). nsem_boosts c - i)") auto

declare discard_boosts.simps [simp del]

text \<open>The search for the highest boost of the semaphore: \<open>(max_boost_index, max_boost_priority)\<close>.\<close>

definition max_boost :: "semid \<Rightarrow> tcb_s \<Rightarrow> int \<times> prio" where
  "max_boost s c =
     fold (\<lambda>i (max_boost_index, max_boost_priority).
             if boost_sem (sem_boosts c ! i) = s \<and> max_boost_priority < priority (sem_boosts c ! i)
             then (int i, priority (sem_boosts c ! i))
             else (max_boost_index, max_boost_priority))
          [0..<nsem_boosts c] (- 1, 0)"

definition remove_boost :: "nat \<Rightarrow> tcb_s \<Rightarrow> tcb_s" where
  "remove_boost i c =
     c\<lparr>sem_boosts := (sem_boosts c)[i := sem_boosts c ! (nsem_boosts c - 1)],
       nsem_boosts := nsem_boosts c - 1\<rparr>"

definition new_priority :: "tcb_s \<Rightarrow> prio" where
  "new_priority c =
     fold (\<lambda>i p. if priority (sem_boosts c ! i) > p then priority (sem_boosts c ! i) else p)
          [0..<nsem_boosts c] (base_priority c)"

subsection \<open>nxsem_restoreholderprio\<close>

definition nxsem_restoreholderprio ::
  "config \<Rightarrow> tid option \<Rightarrow> semid \<Rightarrow> tid option \<Rightarrow> kernel \<Rightarrow> (int \<times> kernel) option" where
  "nxsem_restoreholderprio cfg ht s arg st =
     (case nxsem_findholder cfg s ht st of
        None \<Rightarrow> None
      | Some pholder \<Rightarrow>
          if \<not> nxsched_verify_tcb st ht then
            (let st1 = log_event (Swarn_stale_handle ht) st in
             case pholder of
               Some p \<Rightarrow>
                 (case nxsem_freeholder cfg s p st1 of None \<Rightarrow> None | Some st2 \<Rightarrow> Some (0, st2))
             | None \<Rightarrow> Some (0, st1))
          else
            (case ht of
               None \<Rightarrow> Some (0, st)
             | Some h \<Rightarrow>
                 if sched_priority (tcbs st h) \<noteq> base_priority (tcbs st h) then
                   (if CONFIG_SEM_NNESTPRIO cfg > 0 then
                      let st1 =
                            (if (case pholder of None \<Rightarrow> True
                                 | Some p \<Rightarrow> counts (holder_at st p) = 0)
                             then tcb_upd h (discard_boosts s 0) st
                             else
                               (case max_boost s (tcbs st h) of
                                  (max_boost_index, max_boost_priority) \<Rightarrow>
                                    if max_boost_index \<ge> 0
                                    then tcb_upd h (remove_boost (nat max_boost_index)) st
                                    else st));
                          newp = new_priority (tcbs st1 h)
                      in if newp \<noteq> sched_priority (tcbs st1 h)
                         then Some (0, nxsched_set_priority h newp st1)
                         else Some (0, st1)
                    else Some (0, nxsched_reprioritize h (base_priority (tcbs st h)) st))
                 else Some (0, st)))"

subsection \<open>The handlers nxsem_restoreholderprioall, _others and _self\<close>

definition nxsem_restoreholderprioall :: "config \<Rightarrow> holderhandler_t" where
  "nxsem_restoreholderprioall cfg pholder s arg st =
     nxsem_restoreholderprio cfg (htcb (holder_at st pholder)) s arg st"

definition nxsem_restoreholderprio_others :: "config \<Rightarrow> holderhandler_t" where
  "nxsem_restoreholderprio_others cfg pholder s arg st =
     (let rtcb = this_task st in
      if htcb (holder_at st pholder) \<noteq> Some rtcb
      then nxsem_restoreholderprio cfg (htcb (holder_at st pholder)) s arg st
      else Some (0, st))"

definition nxsem_restoreholderprio_self :: "config \<Rightarrow> holderhandler_t" where
  "nxsem_restoreholderprio_self cfg pholder s arg st =
     (let rtcb = this_task st in
      if htcb (holder_at st pholder) = Some rtcb then
        (case (if CONFIG_SEM_PREALLOCHOLDERS cfg = 0
               then nxsem_findandfreeholder cfg s (Some rtcb) st else Some st) of
           None \<Rightarrow> None
         | Some st1 \<Rightarrow>
             (case nxsem_restoreholderprio cfg (Some rtcb) s arg st1 of
                None \<Rightarrow> None
              | Some (r, st2) \<Rightarrow> Some (1, st2)))
      else Some (0, st))"

subsection \<open>nxsem_restore_baseprio_irq and nxsem_restore_baseprio_task\<close>

definition nxsem_restore_baseprio_irq :: "config \<Rightarrow> tid option \<Rightarrow> semid \<Rightarrow> kernel \<Rightarrow> kernel option" where
  "nxsem_restore_baseprio_irq cfg stcb s st =
     (if stcb \<noteq> None then
        map_option snd (nxsem_foreachholder cfg s (nxsem_restoreholderprioall cfg) stcb st)
      else if CONFIG_DEBUG_ASSERTIONS cfg then
        map_option snd (nxsem_foreachholder cfg s nxsem_verifyholder None st)
      else Some st)"

definition nxsem_restore_baseprio_task :: "config \<Rightarrow> tid option \<Rightarrow> semid \<Rightarrow> kernel \<Rightarrow> kernel option" where
  "nxsem_restore_baseprio_task cfg stcb s st =
     (let rtcb = this_task st in
      case
        (if stcb \<noteq> None then
           (case nxsem_foreachholder cfg s (nxsem_restoreholderprio_others cfg) stcb st of
              None \<Rightarrow> None
            | Some (r1, st1) \<Rightarrow>
                map_option snd (nxsem_foreachholder cfg s (nxsem_restoreholderprio_self cfg) stcb st1))
         else if CONFIG_DEBUG_ASSERTIONS cfg then
           map_option snd (nxsem_foreachholder cfg s nxsem_verifyholder None st)
         else Some st)
      of None \<Rightarrow> None
       | Some st2 \<Rightarrow> nxsem_findandfreeholder cfg s (Some rtcb) st2)"

section \<open>Public functions\<close>

subsection \<open>nxsem_initialize_holders\<close>

definition nxsem_initialize_holders :: "config \<Rightarrow> kernel \<Rightarrow> kernel" where
  "nxsem_initialize_holders cfg st =
     (if CONFIG_SEM_PREALLOCHOLDERS cfg > 0 then
        let st1 = st\<lparr>g_freeholders := Some 0\<rparr>;
            st2 = fold (\<lambda>i. node_upd i (\<lambda>h. h\<lparr>flink := Some (i + 1)\<rparr>))
                       [0..<CONFIG_SEM_PREALLOCHOLDERS cfg - 1] st1
        in node_upd (CONFIG_SEM_PREALLOCHOLDERS cfg - 1) (\<lambda>h. h\<lparr>flink := None\<rparr>) st2
      else st)"

subsection \<open>nxsem_destroyholder\<close>

definition nxsem_destroyholder :: "config \<Rightarrow> semid \<Rightarrow> kernel \<Rightarrow> kernel result option" where
  "nxsem_destroyholder cfg s st =
     (if CONFIG_SEM_PREALLOCHOLDERS cfg > 0 then
        (case hhead (sems st s) of
           Some p \<Rightarrow>
             (case DEBUGASSERT cfg (flink (g_holderalloc st ! p) = None) () of
                Assertion_failed \<Rightarrow> Some Assertion_failed
              | Ok u \<Rightarrow>
                  map_option (\<lambda>r. Ok (snd r))
                    (nxsem_foreachholder cfg s (nxsem_recoverholders cfg) None st))
         | None \<Rightarrow> Some (Ok st))
      else
        (case DEBUGASSERT cfg (htcb (holder_at st (Builtin s 0)) = None
                               \<or> htcb (holder_at st (Builtin s 1)) = None) () of
           Assertion_failed \<Rightarrow> Some Assertion_failed
         | Ok u \<Rightarrow>
             Some (Ok (holder_upd (Builtin s 1) (\<lambda>h. h\<lparr>htcb := None\<rparr>)
                        (holder_upd (Builtin s 0) (\<lambda>h. h\<lparr>htcb := None\<rparr>) st)))))"

subsection \<open>nxsem_add_holder_tcb and nxsem_add_holder\<close>

definition nxsem_add_holder_tcb :: "config \<Rightarrow> tid option \<Rightarrow> semid \<Rightarrow> kernel \<Rightarrow> kernel result option" where
  "nxsem_add_holder_tcb cfg ht s st =
     (if flags (sems st s) AND PRIOINHERIT_FLAGS_DISABLE = 0 then
        (case nxsem_findorallocateholder cfg s ht st of
           None \<Rightarrow> None
         | Some Assertion_failed \<Rightarrow> Some Assertion_failed
         | Some (Ok (Some pholder, st1)) \<Rightarrow>
             Some (Ok (holder_upd pholder (\<lambda>h. h\<lparr>counts := counts h + 1\<rparr>)
                        (holder_upd pholder (\<lambda>h. h\<lparr>htcb := ht\<rparr>) st1)))
         | Some (Ok (None, st1)) \<Rightarrow> Some (Ok st1))
      else Some (Ok st))"

definition nxsem_add_holder :: "config \<Rightarrow> semid \<Rightarrow> kernel \<Rightarrow> kernel result option" where
  "nxsem_add_holder cfg s st = nxsem_add_holder_tcb cfg (Some (this_task st)) s st"

subsection \<open>nxsem_boost_priority\<close>

definition nxsem_boost_priority :: "config \<Rightarrow> semid \<Rightarrow> kernel \<Rightarrow> kernel option" where
  "nxsem_boost_priority cfg s st =
     (let rtcb = this_task st in
      map_option snd (nxsem_foreachholder cfg s (nxsem_boostholderprio cfg) (Some rtcb) st))"

subsection \<open>nxsem_release_holder\<close>

definition nxsem_release_holder :: "config \<Rightarrow> semid \<Rightarrow> kernel \<Rightarrow> kernel option" where
  "nxsem_release_holder cfg s st =
     (let rtcb = this_task st in
      case nxsem_findholder cfg s (Some rtcb) st of
        None \<Rightarrow> None
      | Some None \<Rightarrow> Some st
      | Some (Some pholder) \<Rightarrow>
          if sint (counts (holder_at st pholder)) > 0
          then Some (holder_upd pholder (\<lambda>h. h\<lparr>counts := counts h - 1\<rparr>) st)
          else Some st)"

subsection \<open>nxsem_restore_baseprio\<close>

definition nxsem_restore_baseprio :: "config \<Rightarrow> tid option \<Rightarrow> semid \<Rightarrow> kernel \<Rightarrow> kernel option" where
  "nxsem_restore_baseprio cfg stcb s st =
     (if up_interrupt_context st then nxsem_restore_baseprio_irq cfg stcb s st
      else nxsem_restore_baseprio_task cfg stcb s st)"

subsection \<open>nxsem_canceled\<close>

definition nxsem_canceled :: "config \<Rightarrow> tid option \<Rightarrow> semid \<Rightarrow> kernel \<Rightarrow> kernel result option" where
  "nxsem_canceled cfg stcb s st =
     (case DEBUGASSERT cfg (semcount (sems st s) \<le> 0) () of
        Assertion_failed \<Rightarrow> Some Assertion_failed
      | Ok u \<Rightarrow>
          map_option (\<lambda>r. Ok (snd r))
            (nxsem_foreachholder cfg s (nxsem_restoreholderprioall cfg) stcb st))"

section \<open>The kernel at boot and sequences of operations\<close>

text \<open>
  Static storage is zero at boot: every holder has \<^verbatim>\<open>htcb == NULL\<close> and no counts, every
  list head is \<^verbatim>\<open>NULL\<close>.
\<close>

definition zero_holder :: semholder_s where
  "zero_holder = \<lparr>flink = None, htcb = None, counts = 0\<rparr>"

definition zero_sem :: sem_t where
  "zero_sem = \<lparr>semcount = 0, flags = 0, hhead = None, holder = (zero_holder, zero_holder)\<rparr>"

definition zero_tcb :: "config \<Rightarrow> tcb_s" where
  "zero_tcb cfg =
     \<lparr>sched_priority = 0, base_priority = 0, nsem_boosts = 0,
      sem_boosts = replicate (CONFIG_SEM_NNESTPRIO cfg) \<lparr>boost_sem = 0, priority = 0\<rparr>\<rparr>"

definition boot :: "config \<Rightarrow> kernel" where
  "boot cfg =
     \<lparr>g_holderalloc = replicate (CONFIG_SEM_PREALLOCHOLDERS cfg) zero_holder,
      g_freeholders = None, sems = (\<lambda>s. zero_sem), tcbs = (\<lambda>t. zero_tcb cfg), active = {},
      running = 0, interrupt_context = False, trace = []\<rparr>"

text \<open>The entry points the semaphore layer calls, as one step function.\<close>

datatype op =
    Add_holder semid
  | Add_holder_tcb tid semid
  | Release_holder semid
  | Boost_priority semid
  | Restore_baseprio "tid option" semid
  | Canceled "tid option" semid
  | Destroyholder semid

fun exec_op :: "config \<Rightarrow> op \<Rightarrow> kernel \<Rightarrow> kernel result option" where
  "exec_op cfg (Add_holder s) st = nxsem_add_holder cfg s st"
| "exec_op cfg (Add_holder_tcb t s) st = nxsem_add_holder_tcb cfg (Some t) s st"
| "exec_op cfg (Release_holder s) st = map_option Ok (nxsem_release_holder cfg s st)"
| "exec_op cfg (Boost_priority s) st = map_option Ok (nxsem_boost_priority cfg s st)"
| "exec_op cfg (Restore_baseprio stcb s) st = map_option Ok (nxsem_restore_baseprio cfg stcb s st)"
| "exec_op cfg (Canceled stcb s) st = nxsem_canceled cfg stcb s st"
| "exec_op cfg (Destroyholder s) st = nxsem_destroyholder cfg s st"

fun exec_ops :: "config \<Rightarrow> op list \<Rightarrow> kernel \<Rightarrow> kernel result option" where
  "exec_ops cfg [] st = Some (Ok st)"
| "exec_ops cfg (x # xs) st =
     (case exec_op cfg x st of
        Some (Ok st') \<Rightarrow> exec_ops cfg xs st'
      | r \<Rightarrow> r)"

text \<open>
  Between two calls the rest of the kernel runs: threads are scheduled, exit and change
  priority, semaphore counts and flags change. It does not write the holder store.
\<close>

definition same_store :: "kernel \<Rightarrow> kernel \<Rightarrow> bool" where
  "same_store st st' \<longleftrightarrow>
     g_holderalloc st' = g_holderalloc st \<and> g_freeholders st' = g_freeholders st \<and>
     (\<forall>s. hhead (sems st' s) = hhead (sems st s) \<and> holder (sems st' s) = holder (sems st s))"

inductive reachable :: "config \<Rightarrow> kernel \<Rightarrow> bool" for cfg :: config where
  boot: "reachable cfg (nxsem_initialize_holders cfg (boot cfg))"
| call: "reachable cfg st \<Longrightarrow> exec_op cfg x st = Some (Ok st') \<Longrightarrow> reachable cfg st'"
| rest: "reachable cfg st \<Longrightarrow> same_store st st' \<Longrightarrow> reachable cfg st'"

section \<open>Example configurations and states\<close>

definition cfg_inline :: config where
  "cfg_inline = \<lparr>CONFIG_SEM_PREALLOCHOLDERS = 0, CONFIG_SEM_NNESTPRIO = 0,
                  CONFIG_DEBUG_ASSERTIONS = False\<rparr>"

definition cfg_pooled :: config where
  "cfg_pooled = \<lparr>CONFIG_SEM_PREALLOCHOLDERS = 2, CONFIG_SEM_NNESTPRIO = 0,
                  CONFIG_DEBUG_ASSERTIONS = False\<rparr>"

definition cfg_pooled3 :: config where
  "cfg_pooled3 = \<lparr>CONFIG_SEM_PREALLOCHOLDERS = 3, CONFIG_SEM_NNESTPRIO = 0,
                   CONFIG_DEBUG_ASSERTIONS = False\<rparr>"

definition cfg_nested :: config where
  "cfg_nested = \<lparr>CONFIG_SEM_PREALLOCHOLDERS = 0, CONFIG_SEM_NNESTPRIO = 2,
                  CONFIG_DEBUG_ASSERTIONS = False\<rparr>"

definition cfg_inline_debug :: config where
  "cfg_inline_debug = \<lparr>CONFIG_SEM_PREALLOCHOLDERS = 0, CONFIG_SEM_NNESTPRIO = 0,
                        CONFIG_DEBUG_ASSERTIONS = True\<rparr>"

text \<open>Threads 1 and 2 hold one count each on semaphore 0.\<close>

definition two_holders :: "config \<Rightarrow> kernel result option" where
  "two_holders cfg =
     exec_ops cfg [Add_holder_tcb 1 0, Add_holder_tcb 2 0] (nxsem_initialize_holders cfg (boot cfg))"

text \<open>
  A handler that counts its calls in the entry it is given and asks to stop (returns 1)
  on the entry of thread \<open>t\<close>.
\<close>

definition stop_at :: "tid \<Rightarrow> holderhandler_t" where
  "stop_at t pholder s arg st =
     Some (if htcb (holder_at st pholder) = Some t then 1 else 0,
           holder_upd pholder (\<lambda>h. h\<lparr>counts := counts h + 1\<rparr>) st)"

section \<open>Lists in the holder array, and the invariants of the store\<close>

text \<open>
  \<open>chain heap p ns\<close>: following \<open>flink\<close> from \<open>p\<close> visits exactly the nodes \<open>ns\<close> of the
  array and then reaches \<^verbatim>\<open>NULL\<close>.
\<close>

fun chain :: "semholder_s list \<Rightarrow> nat option \<Rightarrow> nat list \<Rightarrow> bool" where
  "chain heap p [] \<longleftrightarrow> p = None"
| "chain heap p (n # ns) \<longleftrightarrow> p = Some n \<and> n < length heap \<and> chain heap (flink (heap ! n)) ns"

definition headptr :: "nat list \<Rightarrow> nat option" where
  "headptr ns = (case ns of [] \<Rightarrow> None | n # ms \<Rightarrow> Some n)"

text \<open>The nodes met from \<open>p\<close> in at most \<open>k\<close> steps.\<close>

fun walk :: "nat \<Rightarrow> semholder_s list \<Rightarrow> nat option \<Rightarrow> nat list" where
  "walk 0 heap p = []"
| "walk (Suc k) heap None = []"
| "walk (Suc k) heap (Some n) = n # walk k heap (flink (heap ! n))"

text \<open>The holder entries of a semaphore, and the live ones among them.\<close>

definition holder_ptrs :: "config \<Rightarrow> kernel \<Rightarrow> semid \<Rightarrow> holder_ptr list" where
  "holder_ptrs cfg st s =
     (if CONFIG_SEM_PREALLOCHOLDERS cfg > 0
      then map Prealloc (walk (length (g_holderalloc st)) (g_holderalloc st) (hhead (sems st s)))
      else [Builtin s 0, Builtin s 1])"

definition live_holders :: "config \<Rightarrow> kernel \<Rightarrow> semid \<Rightarrow> holder_ptr list" where
  "live_holders cfg st s = filter (\<lambda>p. htcb (holder_at st p) \<noteq> None) (holder_ptrs cfg st s)"

definition free_nodes :: "kernel \<Rightarrow> nat list" where
  "free_nodes st = walk (length (g_holderalloc st)) (g_holderalloc st) (g_freeholders st)"

text \<open>
  The invariant of the pooled regime, over the free list \<open>FL\<close> and the list \<open>L s\<close> of
  every semaphore: the lists are chains of the array, share no node and together hold
  every node; a free node has no thread and no counts; a listed node has a thread, which
  no other node of that list has.
\<close>

definition pool_inv :: "config \<Rightarrow> kernel \<Rightarrow> nat list \<Rightarrow> (semid \<Rightarrow> nat list) \<Rightarrow> bool" where
  "pool_inv cfg st FL L \<longleftrightarrow>
     length (g_holderalloc st) = CONFIG_SEM_PREALLOCHOLDERS cfg \<and>
     chain (g_holderalloc st) (g_freeholders st) FL \<and>
     (\<forall>s. chain (g_holderalloc st) (hhead (sems st s)) (L s)) \<and>
     (\<forall>s. set FL \<inter> set (L s) = {}) \<and>
     (\<forall>s s'. s \<noteq> s' \<longrightarrow> set (L s) \<inter> set (L s') = {}) \<and>
     set FL \<union> (\<Union>s. set (L s)) = {..<CONFIG_SEM_PREALLOCHOLDERS cfg} \<and>
     (\<forall>n \<in> set FL. htcb (g_holderalloc st ! n) = None \<and> counts (g_holderalloc st ! n) = 0) \<and>
     (\<forall>s. \<forall>n \<in> set (L s). htcb (g_holderalloc st ! n) \<noteq> None) \<and>
     (\<forall>s. distinct (map (\<lambda>n. htcb (g_holderalloc st ! n)) (L s)))"

text \<open>The invariant of the inline regime, for the two holders of every semaphore.\<close>

definition inline_inv :: "kernel \<Rightarrow> bool" where
  "inline_inv st \<longleftrightarrow>
     (\<forall>s. htcb (holder_at st (Builtin s 0)) \<noteq> None \<longrightarrow>
          htcb (holder_at st (Builtin s 0)) \<noteq> htcb (holder_at st (Builtin s 1)))"

definition store_inv :: "config \<Rightarrow> kernel \<Rightarrow> bool" where
  "store_inv cfg st \<longleftrightarrow>
     (if CONFIG_SEM_PREALLOCHOLDERS cfg > 0 then (\<exists>FL L. pool_inv cfg st FL L) else inline_inv st)"

text \<open>What a call leaves alone when it only edits the holder store.\<close>

definition store_only :: "kernel \<Rightarrow> kernel \<Rightarrow> bool" where
  "store_only st st' \<longleftrightarrow>
     tcbs st' = tcbs st \<and> active st' = active st \<and> running st' = running st \<and>
     interrupt_context st' = interrupt_context st \<and> trace st' = trace st \<and>
     (\<forall>s. flags (sems st' s) = flags (sems st s) \<and> semcount (sems st' s) = semcount (sems st s))"

text \<open>
  What a handler called on entry \<open>p\<close> of semaphore \<open>s\<close> may do to the store: keep the
  invariant, leave every other entry and every other semaphore as they are, and either
  keep \<open>p\<close> or free it.
\<close>

definition entry_step :: "config \<Rightarrow> semid \<Rightarrow> holder_ptr \<Rightarrow> kernel \<Rightarrow> kernel \<Rightarrow> bool" where
  "entry_step cfg s p st st' \<longleftrightarrow>
     store_inv cfg st' \<and>
     (\<forall>s'. s' \<noteq> s \<longrightarrow> holder_ptrs cfg st' s' = holder_ptrs cfg st s') \<and>
     (\<forall>s' q. q \<in> set (holder_ptrs cfg st s') \<longrightarrow> q \<noteq> p \<longrightarrow>
          htcb (holder_at st' q) = htcb (holder_at st q) \<and>
          counts (holder_at st' q) = counts (holder_at st q)) \<and>
     (holder_ptrs cfg st' s = holder_ptrs cfg st s \<and>
      htcb (holder_at st' p) = htcb (holder_at st p) \<and>
      counts (holder_at st' p) = counts (holder_at st p)
      \<or>
      holder_ptrs cfg st' s =
        (if CONFIG_SEM_PREALLOCHOLDERS cfg > 0 then remove1 p (holder_ptrs cfg st s)
         else holder_ptrs cfg st s) \<and>
      htcb (holder_at st' p) = None \<and> counts (holder_at st' p) = 0)"

text \<open>No slot is left for a new holder of the semaphore.\<close>

definition store_full :: "config \<Rightarrow> semid \<Rightarrow> kernel \<Rightarrow> bool" where
  "store_full cfg s st =
     (if CONFIG_SEM_PREALLOCHOLDERS cfg > 0 then g_freeholders st = None
      else htcb (holder_at st (Builtin s 0)) \<noteq> None \<and> htcb (holder_at st (Builtin s 1)) \<noteq> None)"

text \<open>The state a sequence of calls leads to from a given one, when every call returns.\<close>

definition runs_ok :: "config \<Rightarrow> kernel \<Rightarrow> op list \<Rightarrow> bool" where
  "runs_ok cfg st xs = (case exec_ops cfg xs st of Some (Ok st') \<Rightarrow> True | _ \<Rightarrow> False)"

definition after :: "config \<Rightarrow> kernel \<Rightarrow> op list \<Rightarrow> kernel" where
  "after cfg st xs = (case exec_ops cfg xs st of Some (Ok st') \<Rightarrow> st' | _ \<Rightarrow> st)"

definition booted :: "config \<Rightarrow> kernel" where
  "booted cfg = nxsem_initialize_holders cfg (boot cfg)"

text \<open>
  The ledger of a thread: the first \<^verbatim>\<open>nsem_boosts\<close> records of \<^verbatim>\<open>sem_boosts\<close>. It is well
  formed when the count is within the array of \<^verbatim>\<open>CONFIG_SEM_NNESTPRIO\<close> records and every
  record has a priority above 0, as nxsem_boostholderprio writes them (the priority of a
  record is above the base priority of its thread).
\<close>

definition ledger :: "tcb_s \<Rightarrow> semboost_s list" where
  "ledger c = take (nsem_boosts c) (sem_boosts c)"

definition ledger_ok :: "config \<Rightarrow> tcb_s \<Rightarrow> bool" where
  "ledger_ok cfg c \<longleftrightarrow>
     length (sem_boosts c) = CONFIG_SEM_NNESTPRIO cfg \<and> nsem_boosts c \<le> CONFIG_SEM_NNESTPRIO cfg \<and>
     (\<forall>r \<in> set (ledger c). 0 < priority r)"

definition ledgers_ok :: "config \<Rightarrow> kernel \<Rightarrow> bool" where
  "ledgers_ok cfg st \<longleftrightarrow> (\<forall>t. ledger_ok cfg (tcbs st t))"

text \<open>
  Nested mode, inline regime. Thread 1 (priority 3) holds semaphore 0 and all threads are
  live; the running thread 0 has priority 5, every other thread priority 9.
\<close>

definition holder_low :: kernel where
  "holder_low =
     (after cfg_nested (booted cfg_nested) [Add_holder_tcb 1 0])
        \<lparr>tcbs := (\<lambda>t. (zero_tcb cfg_nested)
                   \<lparr>sched_priority := (if t = 0 then 5 else if t = 1 then 3 else 9),
                    base_priority := (if t = 0 then 5 else if t = 1 then 3 else 9)\<rparr>),
         active := {0, 1, 2}\<rparr>"

text \<open>
  Thread 0 and then thread 2 wait for the semaphore and call nxsem_boost_priority.
\<close>

definition boosted_twice :: kernel where
  "boosted_twice =
     after cfg_nested ((after cfg_nested holder_low [Boost_priority 0])\<lparr>running := 2\<rparr>)
       [Boost_priority 0]"

text \<open>
  The priorities of the threads, what a sequence of scheduler calls makes of them, and
  the sequences of calls that only raise: every \<^verbatim>\<open>nxsched_set_priority\<close> asks for a
  priority above the one its thread has at that moment, and there is no
  \<^verbatim>\<open>nxsched_reprioritize\<close>.
\<close>

definition prios :: "kernel \<Rightarrow> tid \<Rightarrow> prio" where
  "prios st t = sched_priority (tcbs st t)"

fun replay :: "(tid \<Rightarrow> prio) \<Rightarrow> event list \<Rightarrow> tid \<Rightarrow> prio" where
  "replay pr [] = pr"
| "replay pr (Set_priority t p # es) = replay (pr(t := p)) es"
| "replay pr (Reprioritize t p # es) = replay (pr(t := p)) es"
| "replay pr (e # es) = replay pr es"

fun raising :: "(tid \<Rightarrow> prio) \<Rightarrow> event list \<Rightarrow> bool" where
  "raising pr [] = True"
| "raising pr (Set_priority t p # es) = (pr t < p \<and> raising (pr(t := p)) es)"
| "raising pr (Reprioritize t p # es) = False"
| "raising pr (e # es) = raising pr es"

definition raised :: "kernel \<Rightarrow> kernel \<Rightarrow> bool" where
  "raised st st' \<longleftrightarrow>
     (\<exists>es. trace st' = trace st @ es \<and> raising (prios st) es \<and> prios st' = replay (prios st) es)"

(*MODEL_CONT*)

section \<open>Verification\<close>

subsection \<open>Iteration over the holders\<close>

text \<open>
  C1 (fails in the inline regime). Threads 1 and 2 hold semaphore 0 in the two built-in
  slots. The handler returns 1 on the entry of thread 1 (slot 0) and counts each call in
  the entry it is given. \<^verbatim>\<open>nxsem_foreachholder\<close> still calls it on slot 1 and returns that
  later call's 0: the inline loop \<^verbatim>\<open>for (i = 0; i < 2; i++)\<close> has no \<^verbatim>\<open>ret == 0\<close> test.
\<close>

theorem C1_foreach_inline_runs_past_nonzero:
  "map_option (\<lambda>(ret, st'). (ret, counts (holder_at st' (Builtin 0 0)), counts (holder_at st' (Builtin 0 1))))
     (nxsem_foreachholder cfg_inline 0 (stop_at 1) None
        (after cfg_inline (booted cfg_inline) [Add_holder_tcb 1 0, Add_holder_tcb 2 0]))
   = Some (0, 2, 2)"
  by code_simp

subsection \<open>A full store\<close>

lemma alloc_full:
  assumes "store_full cfg s st"
  shows "nxsem_allocholder cfg s st =
           (if CONFIG_DEBUG_ASSERTIONS cfg then Assertion_failed
            else Ok (None, log_event Serr_insufficient_holders st))"
  using assms by (auto simp: store_full_def nxsem_allocholder_def DEBUGASSERT_def split: if_splits)

text \<open>
  C6 (as amended). On a full store \<^verbatim>\<open>nxsem_allocholder\<close> returns \<^verbatim>\<open>NULL\<close> and its only effect
  is the logged error, when debug assertions are compiled out; with
  \<^verbatim>\<open>CONFIG_DEBUG_ASSERTIONS\<close> its \<^verbatim>\<open>DEBUGASSERT(pholder != NULL)\<close> fires. When the look-up
  of \<^verbatim>\<open>nxsem_add_holder_tcb\<close> finds no entry, the call does the same and nothing more.
\<close>

theorem C6_full_store_degrades_without_assertions:
  assumes "store_full cfg s st"
  shows "nxsem_allocholder cfg s st =
           (if CONFIG_DEBUG_ASSERTIONS cfg then Assertion_failed
            else Ok (None, log_event Serr_insufficient_holders st)) \<and>
         (nxsem_findholder cfg s ht st = Some None \<longrightarrow>
            nxsem_add_holder_tcb cfg ht s st =
              Some (if flags (sems st s) AND PRIOINHERIT_FLAGS_DISABLE \<noteq> 0 then Ok st
                    else if CONFIG_DEBUG_ASSERTIONS cfg then Assertion_failed
                    else Ok (log_event Serr_insufficient_holders st)))"
  using alloc_full[OF assms]
  by (auto simp: nxsem_add_holder_tcb_def nxsem_findorallocateholder_def)

text \<open>C6, witness: both built-in slots of semaphore 0 are taken and thread 3 asks for one.\<close>

theorem C6_full_store_witness:
  "store_full cfg_inline 0 (after cfg_inline (booted cfg_inline) [Add_holder_tcb 1 0, Add_holder_tcb 2 0]) \<and>
   nxsem_findholder cfg_inline 0 (Some 3)
     (after cfg_inline (booted cfg_inline) [Add_holder_tcb 1 0, Add_holder_tcb 2 0]) = Some None \<and>
   nxsem_add_holder_tcb cfg_inline (Some 3) 0
     (after cfg_inline (booted cfg_inline) [Add_holder_tcb 1 0, Add_holder_tcb 2 0]) =
     Some (Ok (log_event Serr_insufficient_holders
       (after cfg_inline (booted cfg_inline) [Add_holder_tcb 1 0, Add_holder_tcb 2 0])))"
proof -
  let ?S = "after cfg_inline (booted cfg_inline) [Add_holder_tcb 1 0, Add_holder_tcb 2 0]"
  have f: "store_full cfg_inline 0 ?S" by code_simp
  have g: "nxsem_findholder cfg_inline 0 (Some 3) ?S = Some None" by code_simp
  have fl: "flags (sems ?S 0) AND PRIOINHERIT_FLAGS_DISABLE = 0" by code_simp
  have d: "\<not> CONFIG_DEBUG_ASSERTIONS cfg_inline" by code_simp
  from C6_full_store_degrades_without_assertions[OF f, of "Some 3"] g fl d f
  show ?thesis by simp
qed

text \<open>
  C6, counterexample: the same full store in a build with debug assertions. The
  allocation stops the kernel at the assertion, and so does \<^verbatim>\<open>nxsem_add_holder_tcb\<close>.
\<close>

theorem C6_assertion_fires_counterexample:
  "store_full cfg_inline_debug 0
     (after cfg_inline_debug (booted cfg_inline_debug) [Add_holder_tcb 1 0, Add_holder_tcb 2 0]) \<and>
   nxsem_allocholder cfg_inline_debug 0
     (after cfg_inline_debug (booted cfg_inline_debug) [Add_holder_tcb 1 0, Add_holder_tcb 2 0])
     = Assertion_failed \<and>
   (case nxsem_add_holder_tcb cfg_inline_debug (Some 3) 0
       (after cfg_inline_debug (booted cfg_inline_debug) [Add_holder_tcb 1 0, Add_holder_tcb 2 0]) of
      Some Assertion_failed \<Rightarrow> True | _ \<Rightarrow> False)"
proof -
  let ?S = "after cfg_inline_debug (booted cfg_inline_debug) [Add_holder_tcb 1 0, Add_holder_tcb 2 0]"
  have f: "store_full cfg_inline_debug 0 ?S" by code_simp
  have d: "CONFIG_DEBUG_ASSERTIONS cfg_inline_debug" by code_simp
  have a: "(case nxsem_add_holder_tcb cfg_inline_debug (Some 3) 0 ?S of
      Some Assertion_failed \<Rightarrow> True | _ \<Rightarrow> False)" by code_simp
  from alloc_full[OF f] f d a show ?thesis by simp
qed

lemma chain_None [simp]: "chain h None ns \<longleftrightarrow> ns = []"
  by (cases ns) auto

lemma chain_Some: "chain h (Some n) ns \<longleftrightarrow> (\<exists>ms. ns = n # ms \<and> n < length h \<and> chain h (flink (h ! n)) ms)"
  by (cases ns) auto

lemma chain_headptr: "chain h p ns \<Longrightarrow> p = headptr ns"
  by (cases ns) (auto simp: headptr_def)

lemma chain_unique: "chain h p as \<Longrightarrow> chain h p bs \<Longrightarrow> as = bs"
proof (induction as arbitrary: p bs)
  case Nil
  then show ?case by simp
next
  case (Cons a as)
  then show ?case by (cases bs) auto
qed

lemma chain_append: "chain h p (xs @ ys) \<Longrightarrow> chain h (headptr ys) ys"
proof (induction xs arbitrary: p)
  case Nil
  then show ?case using chain_headptr by fastforce
next
  case (Cons x xs)
  then show ?case by auto
qed

lemma chain_bound: "chain h p ns \<Longrightarrow> n \<in> set ns \<Longrightarrow> n < length h"
  by (induction ns arbitrary: p) auto

lemma chain_head_notin: assumes "chain h p (n # ns)" shows "n \<notin> set ns"
proof
  assume "n \<in> set ns"
  then obtain xs ys where ns: "ns = xs @ n # ys" by (auto simp: in_set_conv_decomp)
  from assms have c1: "chain h (Some n) (n # ns)" by simp
  from assms ns have "chain h (flink (h ! n)) (xs @ n # ys)" by simp
  from chain_append[OF this] have "chain h (Some n) (n # ys)" by (simp add: headptr_def)
  from chain_unique[OF c1 this] ns show False by simp
qed

lemma chain_distinct: "chain h p ns \<Longrightarrow> distinct ns"
proof (induction ns arbitrary: p)
  case Nil
  then show ?case by simp
next
  case (Cons n ns)
  from chain_head_notin[OF Cons.prems] Cons show ?case by auto
qed

lemma chain_cong:
  "length h' = length h \<Longrightarrow> (\<And>n. n \<in> set ns \<Longrightarrow> flink (h' ! n) = flink (h ! n)) \<Longrightarrow>
   chain h' p ns = chain h p ns"
  by (induction ns arbitrary: p) auto

lemma chain_length: assumes "chain h p ns" shows "length ns \<le> length h"
proof -
  have "set ns \<subseteq> {..<length h}" using chain_bound[OF assms] by auto
  then have "card (set ns) \<le> length h" using card_mono[of "{..<length h}" "set ns"] by simp
  with chain_distinct[OF assms] show ?thesis by (simp add: distinct_card)
qed

lemma walk_chain: "chain h p ns \<Longrightarrow> length ns \<le> k \<Longrightarrow> walk k h p = ns"
proof (induction k h p arbitrary: ns rule: walk.induct)
  case (1 heap p)
  then show ?case by simp
next
  case (2 k heap)
  then show ?case by simp
next
  case (3 k heap n)
  then show ?case by (cases ns) auto
qed

lemma findholder_list_chain:
  "chain h p ns \<Longrightarrow> findholder_list h p t = Some (find (\<lambda>n. htcb (h ! n) = t) ns)"
proof (induction ns arbitrary: p)
  case Nil
  then show ?case by (simp add: findholder_list.simps)
next
  case (Cons n ns)
  then show ?case by (subst findholder_list.simps) simp
qed

lemma freeholder_search_notin:
  "chain h p ns \<Longrightarrow> x \<notin> set ns \<Longrightarrow>
   freeholder_search h (Prealloc x) prev p = Some (if ns = [] then prev else Some (last ns), None)"
proof (induction ns arbitrary: p prev)
  case Nil
  then show ?case by (simp add: freeholder_search.simps)
next
  case (Cons n ns)
  then show ?case by (subst freeholder_search.simps) (auto dest: chain_headptr simp: headptr_def)
qed

lemma freeholder_search_in:
  "chain h p (as @ x # bs) \<Longrightarrow> x \<notin> set as \<Longrightarrow>
   freeholder_search h (Prealloc x) prev p = Some (if as = [] then prev else Some (last as), Some x)"
proof (induction as arbitrary: p prev)
  case Nil
  then show ?case by (subst freeholder_search.simps) simp
next
  case (Cons n as)
  then show ?case by (subst freeholder_search.simps) (auto dest: chain_headptr simp: headptr_def)
qed

lemma freeholder_search_builtin:
  "chain h p ns \<Longrightarrow>
   freeholder_search h (Builtin s i) prev p = Some (if ns = [] then prev else Some (last ns), None)"
proof (induction ns arbitrary: p prev)
  case Nil
  then show ?case by (simp add: freeholder_search.simps)
next
  case (Cons n ns)
  then show ?case by (subst freeholder_search.simps) (auto dest: chain_headptr simp: headptr_def)
qed

lemma nth_upd: "h[n := v] ! m = (if m = n \<and> n < length h then v else h ! m)"
  by (cases "n < length h") (auto simp: list_update_beyond)

lemma chain_upd_notin:
  "n \<notin> set ns \<Longrightarrow> chain (h[n := v]) p ns = chain h p ns"
  by (rule chain_cong) (auto simp: nth_upd)

lemma chain_upd_same_flink:
  "flink v = flink (h ! n) \<Longrightarrow> chain (h[n := v]) p ns = chain h p ns"
proof (rule chain_cong)
  show "length (h[n := v]) = length h" by simp
next
  fix m assume "flink v = flink (h ! n)" "m \<in> set ns"
  then show "flink (h[n := v] ! m) = flink (h ! m)"
    by (auto simp: nth_upd)
qed

lemma chain_unlink:
  "chain h p0 (as @ x # bs) \<Longrightarrow> as \<noteq> [] \<Longrightarrow>
   chain (h[last as := (h ! last as)\<lparr>flink := flink (h ! x)\<rparr>]) p0 (as @ bs)"
proof (induction as arbitrary: p0)
  case Nil
  then show ?case by simp
next
  case (Cons a as)
  from Cons.prems(1) have d: "distinct (a # as @ x # bs)" using chain_distinct by fastforce
  show ?case
  proof (cases "as = []")
    case True
    with Cons.prems d show ?thesis
      by (auto simp: chain_upd_notin)
  next
    case False
    with d have ne: "last as \<noteq> a" by (metis distinct.simps(2) last_in_set Un_iff set_append)
    from Cons.prems have c: "chain h (flink (h ! a)) (as @ x # bs)" and a: "p0 = Some a" "a < length h" by auto
    from Cons.IH[OF c False] False ne a show ?thesis by simp
  qed
qed

lemma chain_push:
  "chain h g FL \<Longrightarrow> x \<notin> set FL \<Longrightarrow> x < length h \<Longrightarrow>
   chain (h[x := (h ! x)\<lparr>flink := g\<rparr>]) (Some x) (x # FL)"
  by (simp add: chain_upd_notin)

lemma chain_split:
  "chain h p (as @ x # bs) \<Longrightarrow> chain h (flink (h ! x)) bs \<and> x < length h"
  by (induction as arbitrary: p) auto

lemma find_pool:
  assumes "pool_inv cfg st FL L" "0 < CONFIG_SEM_PREALLOCHOLDERS cfg"
  shows "nxsem_findholder cfg s t st =
           Some (map_option Prealloc (find (\<lambda>n. htcb (g_holderalloc st ! n) = t) (L s)))"
proof -
  from assms have "chain (g_holderalloc st) (hhead (sems st s)) (L s)" by (simp add: pool_inv_def)
  from findholder_list_chain[OF this] assms(2) show ?thesis by (simp add: nxsem_findholder_def)
qed

lemma remove1_split: "p \<notin> set as \<Longrightarrow> remove1 p (as @ p # bs) = as @ bs"
  by (induction as) auto

lemma distinct_map_remove1: "distinct (map f xs) \<Longrightarrow> distinct (map f (remove1 x xs))"
  by (induction xs) (auto simp: image_iff dest: notin_set_remove1)

text \<open>The effect of nxsem_freeholder on the heap of the pooled regime.\<close>

lemma freeholder_pool_state:
  assumes N: "0 < CONFIG_SEM_PREALLOCHOLDERS cfg"
    and c: "chain (g_holderalloc st) (hhead (sems st s)) (as @ p # bs)"
  obtains h' where
    "nxsem_freeholder cfg s (Prealloc p) st =
           Some (st\<lparr>g_holderalloc := h', g_freeholders := Some p,
                    sems := (sems st)(s := (sems st s)\<lparr>hhead := headptr (as @ bs)\<rparr>)\<rparr>)"
    "length h' = length (g_holderalloc st)"
    "h' ! p = \<lparr>flink = g_freeholders st, htcb = None, counts = 0\<rparr>"
    "\<And>n. n \<noteq> p \<Longrightarrow> htcb (h' ! n) = htcb (g_holderalloc st ! n) \<and>
                         counts (h' ! n) = counts (g_holderalloc st ! n)"
    "\<And>n. n \<noteq> p \<Longrightarrow> (as = [] \<or> n \<noteq> last as) \<Longrightarrow> flink (h' ! n) = flink (g_holderalloc st ! n)"
    "chain h' (headptr (as @ bs)) (as @ bs)"
proof -
  let ?h = "g_holderalloc st"
  let ?h2 = "?h[p := (?h ! p)\<lparr>htcb := None, counts := 0\<rparr>]"
  from c have d: "distinct (as @ p # bs)" by (rule chain_distinct)
  then have pas: "p \<notin> set as" and pbs: "p \<notin> set bs" by auto
  from chain_split[OF c] have pl: "p < length ?h" and cb: "chain ?h (flink (?h ! p)) bs" by auto
  have c2: "chain ?h2 (hhead (sems st s)) (as @ p # bs)"
    using c by (simp add: chain_upd_same_flink)
  have fp: "flink (?h2 ! p) = flink (?h ! p)" using pl by simp
  have hb: "flink (?h ! p) = headptr bs" using chain_headptr[OF cb] .
  have srch: "freeholder_search ?h2 (Prealloc p) None (hhead (sems st s)) =
        Some (if as = [] then None else Some (last as), Some p)"
    using freeholder_search_in[OF c2 pas] .
  show ?thesis
  proof (cases "as = []")
    case True
    let ?h' = "?h2[p := (?h2 ! p)\<lparr>flink := g_freeholders st\<rparr>]"
    have r: "nxsem_freeholder cfg s (Prealloc p) st =
           Some (st\<lparr>g_holderalloc := ?h', g_freeholders := Some p,
                    sems := (sems st)(s := (sems st s)\<lparr>hhead := headptr (as @ bs)\<rparr>)\<rparr>)"
      using N srch True fp hb pl
      by (simp add: nxsem_freeholder_def node_upd_def sem_upd_def Let_def)
    have "chain ?h' (headptr bs) bs"
      using cb hb pbs by (simp add: chain_upd_notin)
    with r True pl show ?thesis
      by (intro that[of ?h']) (auto simp: nth_upd)
  next
    case False
    let ?q = "last as"
    let ?h3 = "?h2[?q := (?h2 ! ?q)\<lparr>flink := flink (?h2 ! p)\<rparr>]"
    let ?h' = "?h3[p := (?h3 ! p)\<lparr>flink := g_freeholders st\<rparr>]"
    from False pas have qp: "?q \<noteq> p" using last_in_set by metis
    have hp: "headptr (as @ bs) = hhead (sems st s)"
      using chain_headptr[OF c] False by (cases as) (auto simp: headptr_def)
    have r: "nxsem_freeholder cfg s (Prealloc p) st =
           Some (st\<lparr>g_holderalloc := ?h', g_freeholders := Some p,
                    sems := (sems st)(s := (sems st s)\<lparr>hhead := headptr (as @ bs)\<rparr>)\<rparr>)"
      using N srch False pl qp hp
      by (simp add: nxsem_freeholder_def node_upd_def sem_upd_def Let_def)
    have "chain ?h3 (hhead (sems st s)) (as @ bs)"
      using chain_unlink[OF c2 False] .
    then have "chain ?h' (headptr (as @ bs)) (as @ bs)"
      using pas pbs hp by (simp add: chain_upd_notin)
    with r False pl qp show ?thesis
      by (intro that[of ?h']) (auto simp: nth_upd)
  qed
qed

lemma pool_invD:
  assumes "pool_inv cfg st FL L"
  shows "length (g_holderalloc st) = CONFIG_SEM_PREALLOCHOLDERS cfg"
    and "chain (g_holderalloc st) (g_freeholders st) FL"
    and "\<And>s. chain (g_holderalloc st) (hhead (sems st s)) (L s)"
    and "\<And>s. set FL \<inter> set (L s) = {}"
    and "\<And>s s'. s \<noteq> s' \<Longrightarrow> set (L s) \<inter> set (L s') = {}"
    and "set FL \<union> (\<Union>s. set (L s)) = {..<CONFIG_SEM_PREALLOCHOLDERS cfg}"
    and "\<And>n. n \<in> set FL \<Longrightarrow> htcb (g_holderalloc st ! n) = None \<and> counts (g_holderalloc st ! n) = 0"
    and "\<And>s n. n \<in> set (L s) \<Longrightarrow> htcb (g_holderalloc st ! n) \<noteq> None"
    and "\<And>s. distinct (map (\<lambda>n. htcb (g_holderalloc st ! n)) (L s))"
  using assms unfolding pool_inv_def by simp_all

lemma pool_invI:
  assumes "length (g_holderalloc st) = CONFIG_SEM_PREALLOCHOLDERS cfg"
    and "chain (g_holderalloc st) (g_freeholders st) FL"
    and "\<And>s. chain (g_holderalloc st) (hhead (sems st s)) (L s)"
    and "\<And>s. set FL \<inter> set (L s) = {}"
    and "\<And>s s'. s \<noteq> s' \<Longrightarrow> set (L s) \<inter> set (L s') = {}"
    and "set FL \<union> (\<Union>s. set (L s)) = {..<CONFIG_SEM_PREALLOCHOLDERS cfg}"
    and "\<And>n. n \<in> set FL \<Longrightarrow> htcb (g_holderalloc st ! n) = None \<and> counts (g_holderalloc st ! n) = 0"
    and "\<And>s n. n \<in> set (L s) \<Longrightarrow> htcb (g_holderalloc st ! n) \<noteq> None"
    and "\<And>s. distinct (map (\<lambda>n. htcb (g_holderalloc st ! n)) (L s))"
  shows "pool_inv cfg st FL L"
  unfolding pool_inv_def using assms by (intro conjI allI impI ballI) simp_all

lemma map_cong_set: "(\<And>x. x \<in> set xs \<Longrightarrow> f x = g x) \<Longrightarrow> map f xs = map g xs"
  by simp

lemma free_pool:
  assumes inv: "pool_inv cfg st FL L"
    and N: "0 < CONFIG_SEM_PREALLOCHOLDERS cfg"
    and p: "p \<in> set (L s)"
  shows "\<exists>st'. nxsem_freeholder cfg s (Prealloc p) st = Some st' \<and>
           pool_inv cfg st' (p # FL) (L(s := remove1 p (L s))) \<and>
           store_only st st' \<and>
           (\<forall>n. n \<noteq> p \<longrightarrow> htcb (g_holderalloc st' ! n) = htcb (g_holderalloc st ! n) \<and>
                           counts (g_holderalloc st' ! n) = counts (g_holderalloc st ! n))"
proof -
  note I = pool_invD[OF inv]
  define h where "h = g_holderalloc st"
  have dL: "distinct (L s)" using chain_distinct[OF I(3)] .
  from p obtain as bs where Ls: "L s = as @ p # bs" by (auto simp: in_set_conv_decomp)
  with dL have pas: "p \<notin> set as" and pbs: "p \<notin> set bs" by auto
  have rm: "remove1 p (L s) = as @ bs" using Ls pas by (simp add: remove1_split)
  have c: "chain (g_holderalloc st) (hhead (sems st s)) (as @ p # bs)" using I(3)[of s] Ls by simp
  show ?thesis
  proof (rule freeholder_pool_state[OF N c])
  fix h'
  assume
    r: "nxsem_freeholder cfg s (Prealloc p) st =
           Some (st\<lparr>g_holderalloc := h', g_freeholders := Some p,
                    sems := (sems st)(s := (sems st s)\<lparr>hhead := headptr (as @ bs)\<rparr>)\<rparr>)"
    and len0: "length h' = length (g_holderalloc st)"
    and hp: "h' ! p = \<lparr>flink = g_freeholders st, htcb = None, counts = 0\<rparr>"
    and cont0: "\<And>n. n \<noteq> p \<Longrightarrow> htcb (h' ! n) = htcb (g_holderalloc st ! n) \<and>
                         counts (h' ! n) = counts (g_holderalloc st ! n)"
    and fl0: "\<And>n. n \<noteq> p \<Longrightarrow> (as = [] \<or> n \<noteq> last as) \<Longrightarrow> flink (h' ! n) = flink (g_holderalloc st ! n)"
    and cs: "chain h' (headptr (as @ bs)) (as @ bs)"
  have len: "length h' = length h" using len0 by (simp add: h_def)
  have cont: "\<And>n. n \<noteq> p \<Longrightarrow> htcb (h' ! n) = htcb (h ! n) \<and> counts (h' ! n) = counts (h ! n)"
    using cont0 by (simp add: h_def)
  have fl: "\<And>n. n \<noteq> p \<Longrightarrow> (as = [] \<or> n \<noteq> last as) \<Longrightarrow> flink (h' ! n) = flink (h ! n)"
    using fl0 by (simp add: h_def)
  define st' where "st' = st\<lparr>g_holderalloc := h', g_freeholders := Some p,
                    sems := (sems st)(s := (sems st s)\<lparr>hhead := headptr (as @ bs)\<rparr>)\<rparr>"
  define L' where "L' = L(s := remove1 p (L s))"
  have L's: "L' s = as @ bs" using rm by (simp add: L'_def)
  have L'o: "\<And>s'. s' \<noteq> s \<Longrightarrow> L' s' = L s'" by (simp add: L'_def)
  have g': "g_holderalloc st' = h'" and f': "g_freeholders st' = Some p"
    and hs: "hhead (sems st' s) = headptr (as @ bs)"
    and ho: "\<And>s'. s' \<noteq> s \<Longrightarrow> hhead (sems st' s') = hhead (sems st s')"
    by (simp_all add: st'_def)
  have sets: "set (L' s) = set (L s) - {p}" using dL by (simp add: L'_def)
  have sub: "\<And>s'. set (L' s') \<subseteq> set (L s')"
  proof -
    fix s' show "set (L' s') \<subseteq> set (L s')"
    proof (cases "s' = s")
      case True then show ?thesis using sets by simp
    next
      case False then show ?thesis using L'o by simp
    qed
  qed
  have pL': "\<And>s'. p \<notin> set (L' s')"
  proof -
    fix s' show "p \<notin> set (L' s')"
    proof (cases "s' = s")
      case True then show ?thesis using sets by simp
    next
      case False
      with I(5)[OF False] p L'o show ?thesis by auto
    qed
  qed
  have pFL: "p \<notin> set FL" using I(4)[of s] p by auto
  have pl: "p < length h" using chain_bound[OF I(3) p] by (simp add: h_def)
  have lastin: "as \<noteq> [] \<Longrightarrow> last as \<in> set (L s)" using Ls by simp
  have other: "\<And>n. n \<notin> set (L s) \<Longrightarrow> flink (h' ! n) = flink (h ! n)"
  proof -
    fix n assume n: "n \<notin> set (L s)"
    then have "n \<noteq> p" using p by auto
    moreover have "as = [] \<or> n \<noteq> last as" using n lastin by auto
    ultimately show "flink (h' ! n) = flink (h ! n)" using fl by blast
  qed
  have cFL: "chain h' (g_freeholders st) FL"
  proof -
    have "\<And>n. n \<in> set FL \<Longrightarrow> flink (h' ! n) = flink (h ! n)"
      using I(4)[of s] other by blast
    from chain_cong[OF len this] I(2) show ?thesis by (simp add: h_def)
  qed
  have c1: "chain (g_holderalloc st') (g_freeholders st') (p # FL)"
    using cFL pl len hp by (simp add: g' f')
  have c2: "\<And>s'. chain (g_holderalloc st') (hhead (sems st' s')) (L' s')"
  proof -
    fix s'
    show "chain (g_holderalloc st') (hhead (sems st' s')) (L' s')"
    proof (cases "s' = s")
      case True
      then show ?thesis using cs L's hs g' by simp
    next
      case False
      have "\<And>n. n \<in> set (L s') \<Longrightarrow> flink (h' ! n) = flink (h ! n)"
        using I(5)[OF False] other by blast
      from chain_cong[OF len this] I(3)[of s'] have "chain h' (hhead (sems st s')) (L s')"
        by (simp add: h_def)
      then show ?thesis using False g' ho L'o by simp
    qed
  qed
  have c3: "\<And>s'. set (p # FL) \<inter> set (L' s') = {}"
  proof -
    fix s'
    show "set (p # FL) \<inter> set (L' s') = {}"
      using I(4)[of s'] sub[of s'] pL'[of s'] by auto
  qed
  have c4: "\<And>a b. a \<noteq> b \<Longrightarrow> set (L' a) \<inter> set (L' b) = {}"
  proof -
    fix a b :: semid assume ab: "a \<noteq> b"
    show "set (L' a) \<inter> set (L' b) = {}"
      using I(5)[OF ab] sub[of a] sub[of b] by blast
  qed
  have U: "(\<Union>s'. set (L' s')) \<union> {p} = (\<Union>s'. set (L s'))"
  proof (rule set_eqI)
    fix x
    show "x \<in> (\<Union>s'. set (L' s')) \<union> {p} \<longleftrightarrow> x \<in> (\<Union>s'. set (L s'))"
    proof
      assume "x \<in> (\<Union>s'. set (L' s')) \<union> {p}"
      then consider "x = p" | s' where "x \<in> set (L' s')" by auto
      then show "x \<in> (\<Union>s'. set (L s'))"
      proof cases
        case 1 then show ?thesis using p by auto
      next
        case 2 then show ?thesis using sub[of s'] by auto
      qed
    next
      assume "x \<in> (\<Union>s'. set (L s'))"
      then obtain s' where x: "x \<in> set (L s')" by auto
      show "x \<in> (\<Union>s'. set (L' s')) \<union> {p}"
      proof (cases "x = p")
        case True then show ?thesis by simp
      next
        case False
        have "x \<in> set (L' s')"
        proof (cases "s' = s")
          case True with x False sets show ?thesis by simp
        next
          case False with x L'o show ?thesis by simp
        qed
        then show ?thesis by blast
      qed
    qed
  qed
  have c5: "set (p # FL) \<union> (\<Union>s'. set (L' s')) = {..<CONFIG_SEM_PREALLOCHOLDERS cfg}"
  proof -
    have "set (p # FL) \<union> (\<Union>s'. set (L' s')) = set FL \<union> ((\<Union>s'. set (L' s')) \<union> {p})" by auto
    also have "\<dots> = set FL \<union> (\<Union>s'. set (L s'))" by (simp only: U)
    finally show ?thesis using I(6) by simp
  qed
  have c6: "\<And>n. n \<in> set (p # FL) \<Longrightarrow>
      htcb (g_holderalloc st' ! n) = None \<and> counts (g_holderalloc st' ! n) = 0"
  proof -
    fix n assume n: "n \<in> set (p # FL)"
    show "htcb (g_holderalloc st' ! n) = None \<and> counts (g_holderalloc st' ! n) = 0"
    proof (cases "n = p")
      case True then show ?thesis using hp g' by simp
    next
      case False
      with n have "n \<in> set FL" by simp
      with I(7)[OF this] cont[OF False] show ?thesis by (simp add: g' h_def)
    qed
  qed
  have c7: "\<And>s' n. n \<in> set (L' s') \<Longrightarrow>
      htcb (g_holderalloc st' ! n) \<noteq> None"
  proof -
    fix s' n assume n: "n \<in> set (L' s')"
    have np: "n \<noteq> p" using n pL'[of s'] by auto
    have "n \<in> set (L s')" using n sub[of s'] by auto
    with I(8) cont[OF np] show "htcb (g_holderalloc st' ! n) \<noteq> None"
      by (simp add: g' h_def)
  qed
  have c8: "\<And>s'. distinct (map (\<lambda>n. htcb (g_holderalloc st' ! n)) (L' s'))"
  proof -
    fix s'
    have "\<And>x. x \<in> set (L' s') \<Longrightarrow> htcb (h' ! x) = htcb (h ! x)"
      using pL'[of s'] cont by metis
    then have e: "map (\<lambda>n. htcb (h' ! n)) (L' s') = map (\<lambda>n. htcb (h ! n)) (L' s')"
      by (intro map_cong_set) simp
    have "distinct (map (\<lambda>n. htcb (h ! n)) (L' s'))"
    proof (cases "s' = s")
      case True
      then show ?thesis using distinct_map_remove1[OF I(9)[of s], of p] by (simp add: L'_def h_def)
    next
      case False
      then show ?thesis using I(9)[of s'] L'o by (simp add: h_def)
    qed
    then show "distinct (map (\<lambda>n. htcb (g_holderalloc st' ! n)) (L' s'))" unfolding g' e .
  qed
  have c0: "length (g_holderalloc st') = CONFIG_SEM_PREALLOCHOLDERS cfg"
    using len I(1) by (simp add: g' h_def)
  have inv': "pool_inv cfg st' (p # FL) L'"
    using c0 c1 c2 c3 c4 c5 c6 c7 c8 by (rule pool_invI)
  have so: "store_only st st'" by (simp add: store_only_def st'_def)
  have "\<forall>n. n \<noteq> p \<longrightarrow> htcb (g_holderalloc st' ! n) = htcb (g_holderalloc st ! n) \<and>
                           counts (g_holderalloc st' ! n) = counts (g_holderalloc st ! n)"
    using cont by (simp add: g' h_def)
  with r inv' so show ?thesis unfolding st'_def L'_def by (intro exI conjI)
  qed
qed

lemma pool_inv_cong:
  assumes "g_holderalloc st' = g_holderalloc st" "g_freeholders st' = g_freeholders st"
    "\<And>s. hhead (sems st' s) = hhead (sems st s)"
  shows "pool_inv cfg st' FL L = pool_inv cfg st FL L"
  unfolding pool_inv_def using assms by simp

lemma pool_inv_log [simp]: "pool_inv cfg (log_event e st) = pool_inv cfg st"
  by (intro ext, rule pool_inv_cong) (simp_all add: log_event_def)

lemma pool_inv_tcb_upd [simp]: "pool_inv cfg (tcb_upd t f st) = pool_inv cfg st"
  by (intro ext, rule pool_inv_cong) (simp_all add: tcb_upd_def)

lemma pool_inv_set_priority [simp]:
  "pool_inv cfg (nxsched_set_priority t p st) = pool_inv cfg st"
  by (simp add: nxsched_set_priority_def)

lemma pool_inv_reprioritize [simp]:
  "pool_inv cfg (nxsched_reprioritize t p st) = pool_inv cfg st"
  by (simp add: nxsched_reprioritize_def)

lemma pool_inv_same_store: "same_store st st' \<Longrightarrow> pool_inv cfg st' = pool_inv cfg st"
  by (intro ext, rule pool_inv_cong) (simp_all add: same_store_def)

text \<open>Changing the counts of a listed node.\<close>

lemma pool_inv_counts:
  assumes inv: "pool_inv cfg st FL L" and n: "n \<in> set (L s)"
    and v: "flink v = flink (g_holderalloc st ! n)" "htcb v = htcb (g_holderalloc st ! n)"
  shows "pool_inv cfg (st\<lparr>g_holderalloc := (g_holderalloc st)[n := v]\<rparr>) FL L"
proof -
  note I = pool_invD[OF inv]
  let ?h = "g_holderalloc st"
  let ?h' = "?h[n := v]"
  have nl: "n < length ?h" using chain_bound[OF I(3) n] .
  have ht: "\<And>m. htcb (?h' ! m) = htcb (?h ! m)" using v(2) by (simp add: nth_upd)
  have nFL: "n \<notin> set FL" using I(4)[of s] n by auto
  have ct: "\<And>m. m \<noteq> n \<Longrightarrow> counts (?h' ! m) = counts (?h ! m)" by simp
  show ?thesis
  proof (rule pool_invI)
    show "length (g_holderalloc (st\<lparr>g_holderalloc := ?h'\<rparr>)) = CONFIG_SEM_PREALLOCHOLDERS cfg"
      using I(1) by simp
    show "chain (g_holderalloc (st\<lparr>g_holderalloc := ?h'\<rparr>)) (g_freeholders (st\<lparr>g_holderalloc := ?h'\<rparr>)) FL"
      using I(2) v(1) by (simp add: chain_upd_same_flink)
    show "\<And>s. chain (g_holderalloc (st\<lparr>g_holderalloc := ?h'\<rparr>)) (hhead (sems (st\<lparr>g_holderalloc := ?h'\<rparr>) s)) (L s)"
      using I(3) v(1) by (simp add: chain_upd_same_flink)
    show "\<And>s. set FL \<inter> set (L s) = {}" using I(4) .
    show "\<And>s s'. s \<noteq> s' \<Longrightarrow> set (L s) \<inter> set (L s') = {}" using I(5) .
    show "set FL \<union> (\<Union>s. set (L s)) = {..<CONFIG_SEM_PREALLOCHOLDERS cfg}" using I(6) .
    show "\<And>m. m \<in> set FL \<Longrightarrow> htcb (g_holderalloc (st\<lparr>g_holderalloc := ?h'\<rparr>) ! m) = None \<and>
        counts (g_holderalloc (st\<lparr>g_holderalloc := ?h'\<rparr>) ! m) = 0"
    proof -
      fix m assume m: "m \<in> set FL"
      then have "m \<noteq> n" using nFL by auto
      with I(7)[OF m] ht show "htcb (g_holderalloc (st\<lparr>g_holderalloc := ?h'\<rparr>) ! m) = None \<and>
        counts (g_holderalloc (st\<lparr>g_holderalloc := ?h'\<rparr>) ! m) = 0" by simp
    qed
    show "\<And>s m. m \<in> set (L s) \<Longrightarrow> htcb (g_holderalloc (st\<lparr>g_holderalloc := ?h'\<rparr>) ! m) \<noteq> None"
    proof -
      fix s m assume m: "m \<in> set (L s)"
      show "htcb (g_holderalloc (st\<lparr>g_holderalloc := ?h'\<rparr>) ! m) \<noteq> None"
        using I(8)[OF m] v(2) nl by (cases "m = n") simp_all
    qed
    show "\<And>s. distinct (map (\<lambda>m. htcb (g_holderalloc (st\<lparr>g_holderalloc := ?h'\<rparr>) ! m)) (L s))"
      using I(9) ht by simp
  qed
qed

lemma find_Some_in: "find P xs = Some x \<Longrightarrow> x \<in> set xs \<and> P x"
  by (induction xs) (auto split: if_splits)

lemma find_None_all: "find P xs = None \<Longrightarrow> x \<in> set xs \<Longrightarrow> \<not> P x"
  by (induction xs) (auto split: if_splits)

text \<open>nxsem_release_holder in the pooled regime.\<close>

lemma release_pool:
  assumes inv: "pool_inv cfg st FL L" and N: "0 < CONFIG_SEM_PREALLOCHOLDERS cfg"
  shows "\<exists>st'. nxsem_release_holder cfg s st = Some st' \<and> pool_inv cfg st' FL L"
proof (cases "find (\<lambda>n. htcb (g_holderalloc st ! n) = Some (this_task st)) (L s)")
  case None
  then show ?thesis using find_pool[OF inv N, of s "Some (this_task st)"] inv
    by (simp add: nxsem_release_holder_def)
next
  case (Some n)
  from find_Some_in[OF Some] have n: "n \<in> set (L s)" by simp
  show ?thesis
  proof (cases "sint (counts (g_holderalloc st ! n)) > 0")
    case True
    have "pool_inv cfg (st\<lparr>g_holderalloc := (g_holderalloc st)[n := (g_holderalloc st ! n)\<lparr>counts := counts (g_holderalloc st ! n) - 1\<rparr>]\<rparr>) FL L"
      by (intro pool_inv_counts[OF inv n]) simp_all
    then show ?thesis using find_pool[OF inv N, of s "Some (this_task st)"] Some True
      by (simp add: nxsem_release_holder_def node_upd_def)
  next
    case False
    then show ?thesis using find_pool[OF inv N, of s "Some (this_task st)"] Some inv
      by (simp add: nxsem_release_holder_def)
  qed
qed

text \<open>nxsem_allocholder followed by the two stores of nxsem_add_holder_tcb, pooled regime.\<close>

lemma alloc_pool_state:
  assumes N: "0 < CONFIG_SEM_PREALLOCHOLDERS cfg"
    and g: "g_freeholders st = Some q" and ql: "q < length (g_holderalloc st)"
  shows "nxsem_allocholder cfg s st =
     Ok (Some (Prealloc q),
         st\<lparr>g_freeholders := flink (g_holderalloc st ! q),
            g_holderalloc := (g_holderalloc st)[q := (g_holderalloc st ! q)\<lparr>flink := hhead (sems st s), counts := 0\<rparr>],
            sems := (sems st)(s := (sems st s)\<lparr>hhead := Some q\<rparr>)\<rparr>)"
  using N g ql
  by (simp add: nxsem_allocholder_def DEBUGASSERT_def node_upd_def sem_upd_def Let_def)

lemma add_holder_pool:
  assumes inv: "pool_inv cfg st FL L" and N: "0 < CONFIG_SEM_PREALLOCHOLDERS cfg"
  shows "nxsem_add_holder_tcb cfg (Some t) s st = Some Assertion_failed \<or>
         (\<exists>st' FL' L'. nxsem_add_holder_tcb cfg (Some t) s st = Some (Ok st') \<and> pool_inv cfg st' FL' L')"
proof (cases "flags (sems st s) AND PRIOINHERIT_FLAGS_DISABLE = 0")
  case False
  then show ?thesis using inv by (auto simp: nxsem_add_holder_tcb_def)
next
  case en: True
  note I = pool_invD[OF inv]
  define h where "h = g_holderalloc st"
  note fnd = find_pool[OF inv N, of s "Some t"]
  show ?thesis
  proof (cases "find (\<lambda>n. htcb (g_holderalloc st ! n) = Some t) (L s)")
    case (Some n)
    from find_Some_in[OF Some] have n: "n \<in> set (L s)" and hn: "htcb (g_holderalloc st ! n) = Some t"
      by simp_all
    have nl: "n < length (g_holderalloc st)" using chain_bound[OF I(3) n] .
    have "pool_inv cfg (st\<lparr>g_holderalloc := (g_holderalloc st)[n := (g_holderalloc st ! n)\<lparr>htcb := Some t, counts := counts (g_holderalloc st ! n) + 1\<rparr>]\<rparr>) FL L"
      using hn by (intro pool_inv_counts[OF inv n]) simp_all
    moreover have "nxsem_add_holder_tcb cfg (Some t) s st =
       Some (Ok (st\<lparr>g_holderalloc := (g_holderalloc st)[n := (g_holderalloc st ! n)\<lparr>htcb := Some t, counts := counts (g_holderalloc st ! n) + 1\<rparr>]\<rparr>))"
      using en fnd Some nl
      by (simp add: nxsem_add_holder_tcb_def nxsem_findorallocateholder_def node_upd_def)
    ultimately show ?thesis by blast
  next
    case None
    show ?thesis
    proof (cases FL)
      case Nil
      with I(2) have "g_freeholders st = None" by simp
      then have "store_full cfg s st" using N by (simp add: store_full_def)
      have il: "pool_inv cfg (log_event Serr_insufficient_holders st) FL L" using inv by simp
      have "nxsem_add_holder_tcb cfg (Some t) s st =
          Some (if CONFIG_DEBUG_ASSERTIONS cfg then Assertion_failed
                else Ok (log_event Serr_insufficient_holders st))"
        using alloc_full[OF \<open>store_full cfg s st\<close>] en fnd None
        by (simp add: nxsem_add_holder_tcb_def nxsem_findorallocateholder_def)
      then show ?thesis using inv by (cases "CONFIG_DEBUG_ASSERTIONS cfg") auto
    next
      case (Cons q FL')
      with I(2) have g: "g_freeholders st = Some q" and ql: "q < length (g_holderalloc st)"
        and cF: "chain (g_holderalloc st) (flink (g_holderalloc st ! q)) FL'" by simp_all
      have qFL': "q \<notin> set FL'" using chain_distinct[OF I(2)] Cons by simp
      have qFL: "q \<in> set FL" using Cons by simp
      have qL: "\<And>s'. q \<notin> set (L s')" using I(4) qFL by blast
      define h' where "h' = (g_holderalloc st)[q := (g_holderalloc st ! q)\<lparr>flink := hhead (sems st s), htcb := Some t, counts := 1\<rparr>]"
      define st' where "st' = st\<lparr>g_freeholders := flink (g_holderalloc st ! q), g_holderalloc := h',
            sems := (sems st)(s := (sems st s)\<lparr>hhead := Some q\<rparr>)\<rparr>"
      define L' where "L' = L(s := q # L s)"
      have q0: "htcb (g_holderalloc st ! q) = None" "counts (g_holderalloc st ! q) = 0"
        using I(7)[OF qFL] by simp_all
      have r: "nxsem_add_holder_tcb cfg (Some t) s st = Some (Ok st')"
        using en fnd None alloc_pool_state[OF N g ql, of s] ql q0
        by (simp add: nxsem_add_holder_tcb_def nxsem_findorallocateholder_def node_upd_def
            st'_def h'_def)
      have g': "g_holderalloc st' = h'" and f': "g_freeholders st' = flink (g_holderalloc st ! q)"
        and hs: "hhead (sems st' s) = Some q"
        and ho: "\<And>s'. s' \<noteq> s \<Longrightarrow> hhead (sems st' s') = hhead (sems st s')"
        by (simp_all add: st'_def)
      have L's: "L' s = q # L s" and L'o: "\<And>s'. s' \<noteq> s \<Longrightarrow> L' s' = L s'" by (simp_all add: L'_def)
      have len: "length h' = length (g_holderalloc st)" by (simp add: h'_def)
      have hq: "flink (h' ! q) = hhead (sems st s)" "htcb (h' ! q) = Some t" "counts (h' ! q) = 1"
        using ql by (simp_all add: h'_def)
      have hoth: "\<And>m. m \<noteq> q \<Longrightarrow> h' ! m = g_holderalloc st ! m" by (simp add: h'_def)
      have keep: "\<And>p ns. q \<notin> set ns \<Longrightarrow> chain h' p ns = chain (g_holderalloc st) p ns"
        unfolding h'_def by (rule chain_upd_notin)
      have sub: "\<And>s'. set (L' s') \<subseteq> insert q (set (L s'))"
      proof -
        fix s' show "set (L' s') \<subseteq> insert q (set (L s'))"
          by (cases "s' = s") (auto simp: L's L'o)
      qed
      have inL: "\<And>s' m. m \<in> set (L' s') \<Longrightarrow> m \<noteq> q \<Longrightarrow> m \<in> set (L s')"
        using sub by blast
      have c0: "length (g_holderalloc st') = CONFIG_SEM_PREALLOCHOLDERS cfg" using I(1) len g' by simp
      have c1: "chain (g_holderalloc st') (g_freeholders st') FL'"
        using cF keep[OF qFL'] by (simp add: g' f')
      have c2: "\<And>s'. chain (g_holderalloc st') (hhead (sems st' s')) (L' s')"
      proof -
        fix s'
        show "chain (g_holderalloc st') (hhead (sems st' s')) (L' s')"
        proof (cases "s' = s")
          case True
          have "chain h' (hhead (sems st s)) (L s)" using keep[OF qL] I(3) by simp
          then show ?thesis using True hs g' L's hq ql len by simp
        next
          case False
          have "chain h' (hhead (sems st s')) (L s')" using keep[OF qL] I(3) by simp
          then show ?thesis using False ho g' L'o by simp
        qed
      qed
      have c3: "\<And>s'. set FL' \<inter> set (L' s') = {}"
      proof -
        fix s' show "set FL' \<inter> set (L' s') = {}"
          using I(4)[of s'] sub[of s'] qFL' Cons by auto
      qed
      have c4: "\<And>a b. a \<noteq> b \<Longrightarrow> set (L' a) \<inter> set (L' b) = {}"
      proof -
        fix a b :: semid assume ab: "a \<noteq> b"
        have "\<And>x. x \<in> set (L' a) \<Longrightarrow> x \<in> set (L' b) \<Longrightarrow> False"
        proof -
          fix x assume xa: "x \<in> set (L' a)" and xb: "x \<in> set (L' b)"
          show False
          proof (cases "x = q")
            case True
            from ab have "a \<noteq> s \<or> b \<noteq> s" by auto
            then show False
            proof
              assume "a \<noteq> s" with xa True L'o qL show False by simp
            next
              assume "b \<noteq> s" with xb True L'o qL show False by simp
            qed
          next
            case False
            with inL xa xb have "x \<in> set (L a)" "x \<in> set (L b)" by blast+
            with I(5)[OF ab] show False by auto
          qed
        qed
        then show "set (L' a) \<inter> set (L' b) = {}" by auto
      qed
      have U: "set FL' \<union> (\<Union>s'. set (L' s')) = set FL \<union> (\<Union>s'. set (L s'))"
      proof (rule set_eqI)
        fix x
        show "x \<in> set FL' \<union> (\<Union>s'. set (L' s')) \<longleftrightarrow> x \<in> set FL \<union> (\<Union>s'. set (L s'))"
        proof
          assume "x \<in> set FL' \<union> (\<Union>s'. set (L' s'))"
          then consider "x \<in> set FL'" | s' where "x \<in> set (L' s')" by auto
          then show "x \<in> set FL \<union> (\<Union>s'. set (L s'))"
          proof cases
            case 1 then show ?thesis using Cons by simp
          next
            case 2 then show ?thesis using sub[of s'] qFL by auto
          qed
        next
          assume "x \<in> set FL \<union> (\<Union>s'. set (L s'))"
          then consider "x = q" | "x \<in> set FL'" | s' where "x \<in> set (L s')" using Cons by auto
          then show "x \<in> set FL' \<union> (\<Union>s'. set (L' s'))"
          proof cases
            case 1 then have "x \<in> set (L' s)" using L's by simp
            then show ?thesis by blast
          next
            case 2 then show ?thesis by simp
          next
            case 3
            have "x \<in> set (L' s')" using 3 L's L'o by (cases "s' = s") simp_all
            then show ?thesis by blast
          qed
        qed
      qed
      have c5: "set FL' \<union> (\<Union>s'. set (L' s')) = {..<CONFIG_SEM_PREALLOCHOLDERS cfg}"
        using U I(6) by simp
      have c6: "\<And>n. n \<in> set FL' \<Longrightarrow>
          htcb (g_holderalloc st' ! n) = None \<and> counts (g_holderalloc st' ! n) = 0"
      proof -
        fix n assume n: "n \<in> set FL'"
        then have "n \<noteq> q" using qFL' by auto
        moreover have "n \<in> set FL" using n Cons by simp
        ultimately show "htcb (g_holderalloc st' ! n) = None \<and> counts (g_holderalloc st' ! n) = 0"
          using I(7) hoth g' by simp
      qed
      have c7: "\<And>s' n. n \<in> set (L' s') \<Longrightarrow>
          htcb (g_holderalloc st' ! n) \<noteq> None"
      proof -
        fix s' n assume n: "n \<in> set (L' s')"
        show "htcb (g_holderalloc st' ! n) \<noteq> None"
        proof (cases "n = q")
          case True then show ?thesis using hq g' by simp
        next
          case False
          with inL[OF n] I(8) hoth g' show ?thesis by simp
        qed
      qed
      have eq: "\<And>s'. map (\<lambda>n. htcb (h' ! n)) (L s') = map (\<lambda>n. htcb (g_holderalloc st ! n)) (L s')"
      proof -
        fix s'
        show "map (\<lambda>n. htcb (h' ! n)) (L s') = map (\<lambda>n. htcb (g_holderalloc st ! n)) (L s')"
          using qL[of s'] hoth by (intro map_cong_set) metis
      qed
      have c8: "\<And>s'. distinct (map (\<lambda>n. htcb (g_holderalloc st' ! n)) (L' s'))"
      proof -
        fix s'
        show "distinct (map (\<lambda>n. htcb (g_holderalloc st' ! n)) (L' s'))"
        proof (cases "s' = s")
          case True
          have "Some t \<notin> set (map (\<lambda>n. htcb (g_holderalloc st ! n)) (L s))"
            using find_None_all[OF None] by (auto simp: image_iff) metis
          then have "distinct (Some t # map (\<lambda>n. htcb (g_holderalloc st ! n)) (L s))"
            using I(9)[of s] by simp
          then have "distinct (map (\<lambda>n. htcb (h' ! n)) (q # L s))"
            by (simp only: list.map hq eq)
          then show ?thesis by (simp only: True L's g')
        next
          case False
          have "distinct (map (\<lambda>n. htcb (h' ! n)) (L s'))"
            using I(9)[of s'] by (simp only: eq)
          then show ?thesis by (simp only: L'o[OF False] g')
        qed
      qed
      have "pool_inv cfg st' FL' L'"
        using c0 c1 c2 c3 c4 c5 c6 c7 c8 by (rule pool_invI)
      with r show ?thesis by blast
    qed
  qed
qed

text \<open>The pooled loop of nxsem_foreachholder, with an invariant over the nodes still to visit.\<close>

lemma foreachholder_list_rule:
  assumes step: "\<And>p ns st. Q 0 (p # ns) st \<Longrightarrow> htcb (g_holderalloc st ! p) \<noteq> None \<Longrightarrow>
                   \<exists>r st'. handler (Prealloc p) s arg st = Some (r, st') \<and> Q r ns st'"
    and skip: "\<And>p ns st. Q 0 (p # ns) st \<Longrightarrow> htcb (g_holderalloc st ! p) = None \<Longrightarrow> Q 0 ns st"
    and ch: "\<And>r ns st. Q r ns st \<Longrightarrow> chain (g_holderalloc st) (headptr ns) ns"
    and Q: "Q ret ns st"
  shows "\<exists>r st' ms. foreachholder_list handler s arg (headptr ns) ret st = Some (r, st') \<and>
           Q r ms st' \<and> (ms = [] \<or> r \<noteq> 0)"
  using Q
proof (induction ns arbitrary: ret st)
  case Nil
  then show ?case by (subst foreachholder_list.simps) (auto simp: headptr_def)
next
  case (Cons p ns)
  show ?case
  proof (cases "ret = 0")
    case False
    then show ?thesis using Cons.prems
      by (subst foreachholder_list.simps) (auto simp: headptr_def)
  next
    case True
    from ch[OF Cons.prems] have nx: "flink (g_holderalloc st ! p) = headptr ns"
      using chain_headptr by (auto simp: headptr_def)
    show ?thesis
    proof (cases "htcb (g_holderalloc st ! p) = None")
      case hn: True
      from skip[OF Cons.prems[unfolded True] hn] have "Q 0 ns st" .
      from Cons.IH[OF this] show ?thesis using True hn nx
        by (subst foreachholder_list.simps) (simp add: headptr_def)
    next
      case hs: False
      from step[OF Cons.prems[unfolded True] hs] obtain r st' where
        h: "handler (Prealloc p) s arg st = Some (r, st')" and q: "Q r ns st'" by blast
      from Cons.IH[OF q] show ?thesis using True hs nx h
        by (subst foreachholder_list.simps) (simp add: headptr_def)
    qed
  qed
qed

text \<open>The inline loop.\<close>

lemma foreachholder_array_unfold:
  "foreachholder_array handler s arg 0 ret st =
     (case (if htcb (holder_at st (Builtin s 0)) \<noteq> None then handler (Builtin s 0) s arg st
            else Some (ret, st)) of
        None \<Rightarrow> None
      | Some (r1, st1) \<Rightarrow>
          (if htcb (holder_at st1 (Builtin s 1)) \<noteq> None then handler (Builtin s 1) s arg st1
           else Some (r1, st1)))"
proof -
  have two: "\<And>r q. foreachholder_array handler s arg 2 r q = Some (r, q)"
    by (subst foreachholder_array.simps) simp
  have one: "\<And>r q. foreachholder_array handler s arg (Suc 0) r q =
     (if htcb (holder_at q (Builtin s 1)) \<noteq> None then handler (Builtin s 1) s arg q
      else Some (r, q))"
    by (subst foreachholder_array.simps)
       (auto simp: two numeral_2_eq_2[symmetric] split: option.splits)
  show ?thesis
    by (subst foreachholder_array.simps) (auto simp: one split: option.splits)
qed

section \<open>Both regimes behind one interface\<close>

lemma holder_ptrs_pool:
  assumes "pool_inv cfg st FL L" "0 < CONFIG_SEM_PREALLOCHOLDERS cfg"
  shows "holder_ptrs cfg st s = map Prealloc (L s)"
proof -
  note I = pool_invD[OF assms(1)]
  from walk_chain[OF I(3)[of s] chain_length[OF I(3)[of s]]] assms(2)
  show ?thesis by (simp add: holder_ptrs_def)
qed

lemma holder_ptrs_inline:
  "CONFIG_SEM_PREALLOCHOLDERS cfg = 0 \<Longrightarrow> holder_ptrs cfg st s = [Builtin s 0, Builtin s 1]"
  by (simp add: holder_ptrs_def)

lemma find_map_inj: "find P (map Prealloc xs) = map_option Prealloc (find (\<lambda>n. P (Prealloc n)) xs)"
  by (induction xs) auto

lemma findholder_array_unfold:
  "findholder_array st s t 0 = find (\<lambda>p. htcb (holder_at st p) = t) [Builtin s 0, Builtin s 1]"
proof -
  have two: "findholder_array st s t 2 = None"
    by (subst findholder_array.simps) simp
  have one: "findholder_array st s t (Suc 0) =
      (if htcb (holder_at st (Builtin s 1)) = t then Some (Builtin s 1) else None)"
    by (subst findholder_array.simps) (simp add: two numeral_2_eq_2[symmetric])
  show ?thesis by (subst findholder_array.simps) (simp add: one)
qed

text \<open>nxsem_findholder returns the first entry of the semaphore that names the thread.\<close>

lemma findholder_store:
  assumes "store_inv cfg st"
  shows "nxsem_findholder cfg s t st =
           Some (find (\<lambda>p. htcb (holder_at st p) = t) (holder_ptrs cfg st s))"
proof (cases "0 < CONFIG_SEM_PREALLOCHOLDERS cfg")
  case True
  with assms obtain FL L where inv: "pool_inv cfg st FL L" by (auto simp: store_inv_def)
  show ?thesis
    using find_pool[OF inv True, of s t] holder_ptrs_pool[OF inv True, of s]
    by (simp add: find_map_inj)
next
  case False
  then show ?thesis
    using findholder_array_unfold[of st s t]
    by (simp add: nxsem_findholder_def holder_ptrs_def)
qed

lemma same_store_holder_at: "same_store st st' \<Longrightarrow> holder_at st' p = holder_at st p"
  by (cases p) (simp_all add: same_store_def)

lemma same_store_holder_ptrs: "same_store st st' \<Longrightarrow> holder_ptrs cfg st' s = holder_ptrs cfg st s"
  by (simp add: same_store_def holder_ptrs_def)

lemma same_store_inline_inv: "same_store st st' \<Longrightarrow> inline_inv st' = inline_inv st"
  by (simp add: inline_inv_def same_store_holder_at del: holder_at.simps)

lemma same_store_inv: "same_store st st' \<Longrightarrow> store_inv cfg st' = store_inv cfg st"
  by (simp add: store_inv_def same_store_inline_inv pool_inv_same_store)

lemma same_store_refl [simp]: "same_store st st"
  by (simp add: same_store_def)

lemma same_store_trans: "same_store a b \<Longrightarrow> same_store b c \<Longrightarrow> same_store a c"
  by (simp add: same_store_def)

lemma same_store_log [simp]: "same_store st (log_event e st)"
  by (simp add: same_store_def log_event_def)

lemma same_store_tcb_upd [simp]: "same_store st (tcb_upd t f st)"
  by (simp add: same_store_def tcb_upd_def)

lemma same_store_set_priority [simp]: "same_store st (nxsched_set_priority t p st)"
  by (simp add: same_store_def nxsched_set_priority_def log_event_def tcb_upd_def)

lemma same_store_reprioritize [simp]: "same_store st (nxsched_reprioritize t p st)"
  by (simp add: same_store_def nxsched_reprioritize_def log_event_def tcb_upd_def)

text \<open>nxsem_freeholder in the inline regime only clears the entry.\<close>

lemma freeholder_inline:
  "CONFIG_SEM_PREALLOCHOLDERS cfg = 0 \<Longrightarrow>
   nxsem_freeholder cfg s p st =
     Some (holder_upd p (\<lambda>h. h\<lparr>counts := 0\<rparr>) (holder_upd p (\<lambda>h. h\<lparr>htcb := None\<rparr>) st))"
  by (simp add: nxsem_freeholder_def Let_def)

lemma holder_at_Builtin_upd:
  "holder_at (holder_upd (Builtin s i) f st) (Builtin s' j) =
     (if s' = s \<and> (i = 0 \<longleftrightarrow> j = 0) then f (holder_at st (Builtin s' j))
      else holder_at st (Builtin s' j))"
  by (simp add: sem_upd_def holder_get_def holder_set_def)

lemma holder_at_Prealloc_upd_Builtin:
  "holder_at (holder_upd (Prealloc n) f st) (Builtin s' j) = holder_at st (Builtin s' j)"
  by (simp add: node_upd_def)

lemma inline_inv_clear:
  assumes "inline_inv st"
  shows "inline_inv (holder_upd p (\<lambda>h. h\<lparr>counts := 0\<rparr>) (holder_upd p (\<lambda>h. h\<lparr>htcb := None\<rparr>) st))"
proof (cases p)
  case (Prealloc n)
  then show ?thesis using assms
    by (simp add: inline_inv_def holder_at_Prealloc_upd_Builtin del: holder_upd.simps holder_at.simps)
next
  case (Builtin s i)
  then show ?thesis using assms
    by (auto simp: inline_inv_def holder_at_Builtin_upd simp del: holder_upd.simps holder_at.simps)
qed

lemma remove1_map_Prealloc: "remove1 (Prealloc n) (map Prealloc xs) = map Prealloc (remove1 n xs)"
  by (induction xs) auto

lemma store_inv_poolI: "pool_inv cfg st FL L \<Longrightarrow> 0 < CONFIG_SEM_PREALLOCHOLDERS cfg \<Longrightarrow> store_inv cfg st"
  by (auto simp: store_inv_def)

lemma store_inv_inlineI: "inline_inv st \<Longrightarrow> CONFIG_SEM_PREALLOCHOLDERS cfg = 0 \<Longrightarrow> store_inv cfg st"
  by (auto simp: store_inv_def)

lemma store_only_freeholder_inline:
  "store_only st (holder_upd p (\<lambda>h. h\<lparr>counts := 0\<rparr>) (holder_upd p (\<lambda>h. h\<lparr>htcb := None\<rparr>) st))"
  by (cases p) (simp_all add: store_only_def node_upd_def sem_upd_def)

lemma holder_at_Builtin_upd2:
  "holder_at (holder_upd (Builtin s i) g (holder_upd (Builtin s i) f st)) (Builtin s' j) =
     (if s' = s \<and> (i = 0 \<longleftrightarrow> j = 0) then g (f (holder_at st (Builtin s' j)))
      else holder_at st (Builtin s' j))"
  by (cases "j = 0") (auto simp: holder_at_Builtin_upd simp del: holder_upd.simps holder_at.simps)

text \<open>
  nxsem_freeholder on an entry of the semaphore: the entry is cleared, in the pooled
  regime it leaves the list, and nothing else of the store or of the kernel changes.
\<close>

lemma freeholder_store:
  assumes inv: "store_inv cfg st" and p: "p \<in> set (holder_ptrs cfg st s)"
  shows "\<exists>st'. nxsem_freeholder cfg s p st = Some st' \<and> store_inv cfg st' \<and> store_only st st' \<and>
           holder_ptrs cfg st' s =
             (if 0 < CONFIG_SEM_PREALLOCHOLDERS cfg then remove1 p (holder_ptrs cfg st s)
              else holder_ptrs cfg st s) \<and>
           (\<forall>s'. s' \<noteq> s \<longrightarrow> holder_ptrs cfg st' s' = holder_ptrs cfg st s') \<and>
           htcb (holder_at st' p) = None \<and> counts (holder_at st' p) = 0 \<and>
           (\<forall>s' q. q \<in> set (holder_ptrs cfg st s') \<longrightarrow> q \<noteq> p \<longrightarrow>
                htcb (holder_at st' q) = htcb (holder_at st q) \<and>
                counts (holder_at st' q) = counts (holder_at st q))"
proof (cases "0 < CONFIG_SEM_PREALLOCHOLDERS cfg")
  case True
  with inv obtain FL L where pi: "pool_inv cfg st FL L" by (auto simp: store_inv_def)
  note hp = holder_ptrs_pool[OF pi True]
  from p hp obtain n where pn: "p = Prealloc n" and n: "n \<in> set (L s)" by auto
  from free_pool[OF pi True n] obtain st' where
    r: "nxsem_freeholder cfg s (Prealloc n) st = Some st'"
    and pi': "pool_inv cfg st' (n # FL) (L(s := remove1 n (L s)))"
    and so: "store_only st st'"
    and fr: "\<And>m. m \<noteq> n \<Longrightarrow> htcb (g_holderalloc st' ! m) = htcb (g_holderalloc st ! m) \<and>
                           counts (g_holderalloc st' ! m) = counts (g_holderalloc st ! m)"
    by blast
  note hp' = holder_ptrs_pool[OF pi' True]
  have a: "holder_ptrs cfg st' s = remove1 p (holder_ptrs cfg st s)"
    by (simp add: hp hp' pn remove1_map_Prealloc)
  have b: "\<And>s'. s' \<noteq> s \<Longrightarrow> holder_ptrs cfg st' s' = holder_ptrs cfg st s'"
    by (simp add: hp hp')
  have c: "htcb (holder_at st' p) = None \<and> counts (holder_at st' p) = 0"
    using pool_invD(7)[OF pi', of n] pn by simp
  have d: "\<And>s' q. q \<in> set (holder_ptrs cfg st s') \<Longrightarrow> q \<noteq> p \<Longrightarrow>
                htcb (holder_at st' q) = htcb (holder_at st q) \<and>
                counts (holder_at st' q) = counts (holder_at st q)"
  proof -
    fix s' q assume "q \<in> set (holder_ptrs cfg st s')" "q \<noteq> p"
    then obtain m where "q = Prealloc m" "m \<noteq> n" using hp[of s'] pn by auto
    with fr[of m] show "htcb (holder_at st' q) = htcb (holder_at st q) \<and>
                counts (holder_at st' q) = counts (holder_at st q)" by simp
  qed
  from r pn store_inv_poolI[OF pi' True] so a b c d True show ?thesis by auto
next
  case False
  then have Z: "CONFIG_SEM_PREALLOCHOLDERS cfg = 0" by simp
  with inv have ii: "inline_inv st" by (simp add: store_inv_def)
  let ?st' = "holder_upd p (\<lambda>h. h\<lparr>counts := 0\<rparr>) (holder_upd p (\<lambda>h. h\<lparr>htcb := None\<rparr>) st)"
  from p Z obtain i where pi: "p = Builtin s i" and i: "i = 0 \<or> i = 1"
    by (auto simp: holder_ptrs_inline)
  have r: "nxsem_freeholder cfg s p st = Some ?st'" using freeholder_inline[OF Z] .
  have a: "\<And>s'. holder_ptrs cfg ?st' s' = holder_ptrs cfg st s'" by (simp add: holder_ptrs_inline Z)
  have c: "htcb (holder_at ?st' p) = None \<and> counts (holder_at ?st' p) = 0"
    using pi by (simp add: holder_at_Builtin_upd2 del: holder_upd.simps holder_at.simps)
  have d: "\<And>s' q. q \<in> set (holder_ptrs cfg st s') \<Longrightarrow> q \<noteq> p \<Longrightarrow>
                htcb (holder_at ?st' q) = htcb (holder_at st q) \<and>
                counts (holder_at ?st' q) = counts (holder_at st q)"
    using pi i by (auto simp: holder_ptrs_inline Z holder_at_Builtin_upd2 simp del: holder_upd.simps holder_at.simps split: if_splits)
  from r store_inv_inlineI[OF inline_inv_clear[OF ii] Z] store_only_freeholder_inline a c d Z
  show ?thesis by (intro exI[of _ ?st']) (simp del: holder_upd.simps holder_at.simps)
qed

lemma holder_ptrs_distinct:
  assumes "store_inv cfg st" shows "distinct (holder_ptrs cfg st s)"
proof (cases "0 < CONFIG_SEM_PREALLOCHOLDERS cfg")
  case True
  with assms obtain FL L where pi: "pool_inv cfg st FL L" by (auto simp: store_inv_def)
  from chain_distinct[OF pool_invD(3)[OF pi, of s]] holder_ptrs_pool[OF pi True, of s]
  show ?thesis by (simp add: distinct_map inj_on_def)
next
  case False
  then show ?thesis by (simp add: holder_ptrs_inline)
qed

lemma suffix_remove1:
  assumes "distinct xs" "suffix (p # ps) xs"
  shows "suffix ps (remove1 p xs)"
proof -
  from assms(2) obtain pre where xs: "xs = pre @ p # ps" by (auto simp: suffix_def)
  with assms(1) have "p \<notin> set pre" by auto
  then have "remove1 p xs = pre @ ps" using xs by (simp add: remove1_split)
  then show ?thesis by (simp add: suffix_def)
qed

lemma suffix_tl: "suffix (p # ps) xs \<Longrightarrow> suffix ps xs"
  by (rule suffix_ConsD)

lemma suffix_map_Prealloc:
  assumes "suffix ps (map Prealloc ns)"
  obtains ms where "ps = map Prealloc ms" "suffix ms ns"
proof -
  from assms obtain pre where "map Prealloc ns = pre @ ps" by (auto simp: suffix_def)
  then obtain as bs where "ns = as @ bs" "pre = map Prealloc as" "ps = map Prealloc bs"
    by (auto simp: map_eq_append_conv)
  then show ?thesis using that[of bs] by (simp add: suffix_def)
qed

text \<open>
  nxsem_foreachholder in either regime, with an invariant \<open>Q ret ps st\<close> over the value of
  \<open>ret\<close>, the entries \<open>ps\<close> still to visit and the state. The pooled loop leaves when
  \<open>ret\<close> is not 0; the inline loop visits both slots whatever \<open>ret\<close> is.
\<close>

lemma foreachholder_rule:
  assumes init: "Q 0 (holder_ptrs cfg st s) st"
    and inv: "\<And>r ps st. Q r ps st \<Longrightarrow> store_inv cfg st \<and> suffix ps (holder_ptrs cfg st s)"
    and step: "\<And>r0 p ps st. Q r0 (p # ps) st \<Longrightarrow> r0 = 0 \<or> CONFIG_SEM_PREALLOCHOLDERS cfg = 0 \<Longrightarrow>
                 htcb (holder_at st p) \<noteq> None \<Longrightarrow>
                 \<exists>r st'. handler p s arg st = Some (r, st') \<and> Q r ps st'"
    and skip: "\<And>r0 p ps st. Q r0 (p # ps) st \<Longrightarrow> r0 = 0 \<or> CONFIG_SEM_PREALLOCHOLDERS cfg = 0 \<Longrightarrow>
                 htcb (holder_at st p) = None \<Longrightarrow> Q r0 ps st"
  shows "\<exists>r st' ps'. nxsem_foreachholder cfg s handler arg st = Some (r, st') \<and> Q r ps' st' \<and>
           (ps' = [] \<or> (0 < CONFIG_SEM_PREALLOCHOLDERS cfg \<and> r \<noteq> 0))"
proof (cases "0 < CONFIG_SEM_PREALLOCHOLDERS cfg")
  case True
  from inv[OF init] obtain FL L where pi: "pool_inv cfg st FL L" using True by (auto simp: store_inv_def)
  note hp = holder_ptrs_pool[OF pi True, of s]
  have hd: "hhead (sems st s) = headptr (L s)" using chain_headptr[OF pool_invD(3)[OF pi, of s]] .
  have ch: "\<And>r ns st. Q r (map Prealloc ns) st \<Longrightarrow> chain (g_holderalloc st) (headptr ns) ns"
  proof -
    fix r ns st assume q: "Q r (map Prealloc ns) st"
    from inv[OF q] obtain FL L where pi: "pool_inv cfg st FL L"
      and sf: "suffix (map Prealloc ns) (holder_ptrs cfg st s)" using True by (auto simp: store_inv_def)
    from sf holder_ptrs_pool[OF pi True, of s] have "suffix (map Prealloc ns) (map Prealloc (L s))" by simp
    then obtain ms where "map Prealloc ns = map Prealloc ms" "suffix ms (L s)"
      by (rule suffix_map_Prealloc)
    then have "suffix ns (L s)" by (simp add: inj_map_eq_map inj_on_def)
    then obtain pre where "L s = pre @ ns" by (auto simp: suffix_def)
    with pool_invD(3)[OF pi, of s] show "chain (g_holderalloc st) (headptr ns) ns"
      using chain_append by metis
  qed
  have "\<exists>r st' ms. foreachholder_list handler s arg (headptr (L s)) 0 st = Some (r, st') \<and>
           Q r (map Prealloc ms) st' \<and> (ms = [] \<or> r \<noteq> 0)"
  proof (rule foreachholder_list_rule[where Q = "\<lambda>r ns st. Q r (map Prealloc ns) st"])
    show "Q 0 (map Prealloc (L s)) st" using init hp by simp
  next
    fix r ns st assume "Q r (map Prealloc ns) st"
    then show "chain (g_holderalloc st) (headptr ns) ns" by (rule ch)
  next
    fix p ns st assume q: "Q 0 (map Prealloc (p # ns)) st" and h: "htcb (g_holderalloc st ! p) \<noteq> None"
    from step[of 0 "Prealloc p" "map Prealloc ns" st] q h
    show "\<exists>r st'. handler (Prealloc p) s arg st = Some (r, st') \<and> Q r (map Prealloc ns) st'"
      by simp
  next
    fix p ns st assume q: "Q 0 (map Prealloc (p # ns)) st" and h: "htcb (g_holderalloc st ! p) = None"
    from skip[of 0 "Prealloc p" "map Prealloc ns" st] q h
    show "Q 0 (map Prealloc ns) st" by simp
  qed
  then obtain r st' ms where
    "foreachholder_list handler s arg (headptr (L s)) 0 st = Some (r, st')"
    "Q r (map Prealloc ms) st'" "ms = [] \<or> r \<noteq> 0" by blast
  then show ?thesis using True hd
    by (intro exI[of _ r] exI[of _ st'] exI[of _ "map Prealloc ms"])
       (auto simp: nxsem_foreachholder_def)
next
  case False
  then have Z: "CONFIG_SEM_PREALLOCHOLDERS cfg = 0" by simp
  have q0: "Q 0 [Builtin s 0, Builtin s 1] st" using init Z by (simp add: holder_ptrs_inline)
  have "\<exists>r1 st1. (if htcb (holder_at st (Builtin s 0)) \<noteq> None then handler (Builtin s 0) s arg st
            else Some (0, st)) = Some (r1, st1) \<and> Q r1 [Builtin s 1] st1"
  proof (cases "htcb (holder_at st (Builtin s 0)) = None")
    case True
    from skip[OF q0 _ True] Z True show ?thesis by simp
  next
    case False
    from step[OF q0 _ False] Z False show ?thesis by simp
  qed
  then obtain r1 st1 where
    a: "(if htcb (holder_at st (Builtin s 0)) \<noteq> None then handler (Builtin s 0) s arg st
            else Some (0, st)) = Some (r1, st1)" and q1: "Q r1 [Builtin s 1] st1" by blast
  have "\<exists>r2 st2. (if htcb (holder_at st1 (Builtin s 1)) \<noteq> None then handler (Builtin s 1) s arg st1
           else Some (r1, st1)) = Some (r2, st2) \<and> Q r2 [] st2"
  proof (cases "htcb (holder_at st1 (Builtin s 1)) = None")
    case True
    from skip[OF q1 _ True] Z True show ?thesis by simp
  next
    case False
    from step[OF q1 _ False] Z False show ?thesis by simp
  qed
  then obtain r2 st2 where
    b: "(if htcb (holder_at st1 (Builtin s 1)) \<noteq> None then handler (Builtin s 1) s arg st1
           else Some (r1, st1)) = Some (r2, st2)" and q2: "Q r2 [] st2" by blast
  have "nxsem_foreachholder cfg s handler arg st = Some (r2, st2)"
    using Z a b by (simp add: nxsem_foreachholder_def foreachholder_array_unfold del: holder_at.simps)
  with q2 show ?thesis by blast
qed

lemma store_only_refl [simp]: "store_only st st"
  by (simp add: store_only_def)

lemma store_only_trans: "store_only a b \<Longrightarrow> store_only b c \<Longrightarrow> store_only a c"
  by (simp add: store_only_def)

lemma store_only_node_upd [simp]: "store_only st (node_upd n f st)"
  by (simp add: store_only_def node_upd_def)

lemma store_only_holder_upd [simp]: "store_only st (holder_upd p f st)"
  by (cases p) (simp_all add: store_only_def node_upd_def sem_upd_def)

text \<open>Whenever nxsem_freeholder returns, it has written the store only.\<close>

lemma freeholder_store_only:
  assumes "nxsem_freeholder cfg s p st = Some st'"
  shows "store_only st st'"
proof -
  let ?st2 = "holder_upd p (\<lambda>h. h\<lparr>counts := 0\<rparr>) (holder_upd p (\<lambda>h. h\<lparr>htcb := None\<rparr>) st)"
  have s2: "store_only st ?st2" by (rule store_only_freeholder_inline)
  show ?thesis
  proof (cases "0 < CONFIG_SEM_PREALLOCHOLDERS cfg")
    case False
    with assms s2 show ?thesis by (simp add: nxsem_freeholder_def Let_def del: holder_upd.simps)
  next
    case True
    show ?thesis
    proof (cases "freeholder_search (g_holderalloc ?st2) p None (hhead (sems ?st2 s))")
      case None
      with assms True show ?thesis by (simp add: nxsem_freeholder_def Let_def del: holder_upd.simps)
    next
      case (Some pc)
      obtain prev c where pc: "pc = (prev, c)" by (cases pc)
      show ?thesis
      proof (cases c)
        case None
        with assms True Some pc s2 show ?thesis
          by (simp add: nxsem_freeholder_def Let_def del: holder_upd.simps)
      next
        case (Some n)
        let ?st3 = "(case prev of
                       Some q \<Rightarrow> node_upd q (\<lambda>h. h\<lparr>flink := flink (holder_at ?st2 p)\<rparr>) ?st2
                     | None \<Rightarrow> sem_upd s (\<lambda>m. m\<lparr>hhead := flink (holder_at ?st2 p)\<rparr>) ?st2)"
        have a: "store_only ?st2 ?st3"
          by (cases prev) (simp_all add: store_only_def sem_upd_def node_upd_def del: holder_upd.simps holder_at.simps)
        have b: "store_only ?st3 ((holder_upd p (\<lambda>h. h\<lparr>flink := g_freeholders ?st3\<rparr>) ?st3)\<lparr>g_freeholders := Some n\<rparr>)"
          using store_only_holder_upd[of ?st3 p "\<lambda>h. h\<lparr>flink := g_freeholders ?st3\<rparr>"]
          by (simp add: store_only_def del: holder_upd.simps holder_at.simps)
        have c: "st' = (holder_upd p (\<lambda>h. h\<lparr>flink := g_freeholders ?st3\<rparr>) ?st3)\<lparr>g_freeholders := Some n\<rparr>"
          using assms True \<open>freeholder_search (g_holderalloc ?st2) p None (hhead (sems ?st2 s)) = Some pc\<close> pc Some
          by (simp add: nxsem_freeholder_def Let_def del: holder_upd.simps holder_at.simps)
        show ?thesis unfolding c
          by (rule store_only_trans[OF s2 store_only_trans[OF a b]])
      qed
    qed
  qed
qed

lemma same_store_entry_step:
  "same_store st st' \<Longrightarrow> store_inv cfg st \<Longrightarrow> entry_step cfg s p st st'"
  by (simp add: entry_step_def same_store_inv same_store_holder_ptrs same_store_holder_at
      del: holder_at.simps)

lemma entry_step_same_store:
  "entry_step cfg s p st st1 \<Longrightarrow> same_store st1 st2 \<Longrightarrow> entry_step cfg s p st st2"
  by (simp add: entry_step_def same_store_inv same_store_holder_ptrs same_store_holder_at
      del: holder_at.simps)

lemma same_store_then_entry_step:
  assumes "same_store st st1" "entry_step cfg s p st1 st2"
  shows "entry_step cfg s p st st2"
proof -
  have a: "\<And>s'. holder_ptrs cfg st1 s' = holder_ptrs cfg st s'"
    using assms(1) by (rule same_store_holder_ptrs)
  have b: "\<And>q. holder_at st1 q = holder_at st q"
    using assms(1) by (rule same_store_holder_at)
  from assms(2) show ?thesis unfolding entry_step_def a b .
qed

lemma freeholder_entry_step:
  assumes inv: "store_inv cfg st" and p: "p \<in> set (holder_ptrs cfg st s)"
  shows "\<exists>st'. nxsem_freeholder cfg s p st = Some st' \<and> entry_step cfg s p st st' \<and>
           store_only st st' \<and> htcb (holder_at st' p) = None"
proof -
  from freeholder_store[OF inv p] obtain st' where
    r: "nxsem_freeholder cfg s p st = Some st' \<and> store_inv cfg st' \<and> store_only st st' \<and>
           holder_ptrs cfg st' s =
             (if 0 < CONFIG_SEM_PREALLOCHOLDERS cfg then remove1 p (holder_ptrs cfg st s)
              else holder_ptrs cfg st s) \<and>
           (\<forall>s'. s' \<noteq> s \<longrightarrow> holder_ptrs cfg st' s' = holder_ptrs cfg st s') \<and>
           htcb (holder_at st' p) = None \<and> counts (holder_at st' p) = 0 \<and>
           (\<forall>s' q. q \<in> set (holder_ptrs cfg st s') \<longrightarrow> q \<noteq> p \<longrightarrow>
                htcb (holder_at st' q) = htcb (holder_at st q) \<and>
                counts (holder_at st' q) = counts (holder_at st q))" ..
  then have "entry_step cfg s p st st'" unfolding entry_step_def by simp
  with r show ?thesis by (intro exI[of _ st']) simp
qed

text \<open>Two entries of a semaphore that name the same thread are the same entry.\<close>

lemma live_unique:
  assumes inv: "store_inv cfg st"
    and p: "p \<in> set (holder_ptrs cfg st s)" and q: "q \<in> set (holder_ptrs cfg st s)"
    and e: "htcb (holder_at st p) = htcb (holder_at st q)" and l: "htcb (holder_at st p) \<noteq> None"
  shows "p = q"
proof (cases "0 < CONFIG_SEM_PREALLOCHOLDERS cfg")
  case True
  with inv obtain FL L where pi: "pool_inv cfg st FL L" by (auto simp: store_inv_def)
  note hp = holder_ptrs_pool[OF pi True, of s]
  from p q hp obtain n m where nm: "p = Prealloc n" "q = Prealloc m" "n \<in> set (L s)" "m \<in> set (L s)"
    by auto
  from pool_invD(9)[OF pi, of s] have "inj_on (\<lambda>n. htcb (g_holderalloc st ! n)) (set (L s))"
    by (simp add: distinct_map)
  with nm e show ?thesis by (auto simp: inj_on_def)
next
  case False
  then have Z: "CONFIG_SEM_PREALLOCHOLDERS cfg = 0" by simp
  with inv have ii: "inline_inv st" by (simp add: store_inv_def)
  from p q Z have "p = Builtin s 0 \<or> p = Builtin s 1" "q = Builtin s 0 \<or> q = Builtin s 1"
    by (auto simp: holder_ptrs_inline)
  moreover have "htcb (holder_at st (Builtin s 0)) \<noteq> None \<Longrightarrow>
          htcb (holder_at st (Builtin s 0)) \<noteq> htcb (holder_at st (Builtin s 1))"
    using ii unfolding inline_inv_def by blast
  ultimately show ?thesis using e l by (elim disjE) (simp_all del: holder_at.simps)
qed

lemma find_first:
  assumes "x \<in> set xs" "P x" "\<And>y. y \<in> set xs \<Longrightarrow> P y \<Longrightarrow> y = x"
  shows "find P xs = Some x"
  using assms
proof (induction xs)
  case Nil
  then show ?case by simp
next
  case (Cons a xs)
  show ?case
  proof (cases "P a")
    case True
    with Cons.prems(3)[of a] show ?thesis by simp
  next
    case False
    with Cons.prems(1,2) have "x \<in> set xs" by auto
    from Cons.IH[OF this Cons.prems(2)] Cons.prems(3) False show ?thesis by simp
  qed
qed

lemma findholder_self:
  assumes inv: "store_inv cfg st" and p: "p \<in> set (holder_ptrs cfg st s)"
    and l: "htcb (holder_at st p) \<noteq> None"
  shows "nxsem_findholder cfg s (htcb (holder_at st p)) st = Some (Some p)"
proof -
  have u: "\<And>y. y \<in> set (holder_ptrs cfg st s) \<Longrightarrow>
            htcb (holder_at st y) = htcb (holder_at st p) \<Longrightarrow> y = p"
  proof -
    fix y assume y: "y \<in> set (holder_ptrs cfg st s)" and e: "htcb (holder_at st y) = htcb (holder_at st p)"
    from live_unique[OF inv p y e[symmetric] l] show "y = p" by simp
  qed
  have "find (\<lambda>q. htcb (holder_at st q) = htcb (holder_at st p)) (holder_ptrs cfg st s) = Some p"
    by (rule find_first[OF p refl u])
  then show ?thesis by (simp only: findholder_store[OF inv])
qed

lemma entry_step_inv: "entry_step cfg s p st st' \<Longrightarrow> store_inv cfg st'"
  by (simp add: entry_step_def)

lemma entry_step_refl: "store_inv cfg st \<Longrightarrow> entry_step cfg s p st st"
  by (rule same_store_entry_step) simp_all

text \<open>The part of nxsem_restoreholderprio that runs on a verified thread writes no holder.\<close>

lemma restoreholderprio_store:
  assumes inv: "store_inv cfg st"
  shows "\<exists>st'. nxsem_restoreholderprio cfg ht s arg st = Some (0, st') \<and>
           (same_store st st' \<or>
            (\<exists>q. nxsem_findholder cfg s ht st = Some (Some q) \<and> \<not> nxsched_verify_tcb st ht \<and>
                 entry_step cfg s q st st'))"
proof -
  let ?f = "find (\<lambda>p. htcb (holder_at st p) = ht) (holder_ptrs cfg st s)"
  note fs = findholder_store[OF inv, of s ht]
  show ?thesis
  proof (cases "nxsched_verify_tcb st ht")
    case False
    show ?thesis
    proof (cases ?f)
      case None
      with fs False show ?thesis
        by (simp add: nxsem_restoreholderprio_def Let_def del: holder_at.simps)
    next
      case (Some q)
      let ?st1 = "log_event (Swarn_stale_handle ht) st"
      have ss: "same_store st ?st1" by simp
      have i1: "store_inv cfg ?st1" using inv same_store_inv[OF ss] by simp
      have q1: "q \<in> set (holder_ptrs cfg ?st1 s)"
        using find_Some_in[OF Some] same_store_holder_ptrs[OF ss] by simp
      from freeholder_entry_step[OF i1 q1] obtain st' where
        r: "nxsem_freeholder cfg s q ?st1 = Some st'" and es: "entry_step cfg s q ?st1 st'" by blast
      from same_store_then_entry_step[OF ss es] r fs Some False show ?thesis
        by (simp add: nxsem_restoreholderprio_def Let_def del: holder_at.simps)
    qed
  next
    case True
    then obtain h where h: "ht = Some h" by (cases ht) (auto simp: nxsched_verify_tcb_def)
    have ss: "\<And>f. same_store st (tcb_upd h f st)" by simp
    have "\<exists>st'. nxsem_restoreholderprio cfg ht s arg st = Some (0, st') \<and> same_store st st'"
      using fs True h
      by (auto simp: nxsem_restoreholderprio_def Let_def same_store_def nxsched_set_priority_def
          nxsched_reprioritize_def log_event_def tcb_upd_def
          simp del: holder_at.simps split: option.splits prod.splits)
    then show ?thesis by blast
  qed
qed

lemma restoreholderprio_entry:
  assumes inv: "store_inv cfg st" and p: "p \<in> set (holder_ptrs cfg st s)"
    and l: "htcb (holder_at st p) \<noteq> None"
  shows "\<exists>st'. nxsem_restoreholderprio cfg (htcb (holder_at st p)) s arg st = Some (0, st') \<and>
           entry_step cfg s p st st'"
proof -
  from restoreholderprio_store[OF inv, of "htcb (holder_at st p)" s arg] obtain st' where
    r: "nxsem_restoreholderprio cfg (htcb (holder_at st p)) s arg st = Some (0, st')"
    and c: "same_store st st' \<or>
            (\<exists>q. nxsem_findholder cfg s (htcb (holder_at st p)) st = Some (Some q) \<and>
                 \<not> nxsched_verify_tcb st (htcb (holder_at st p)) \<and> entry_step cfg s q st st')"
    by blast
  from c have "entry_step cfg s p st st'"
  proof
    assume "same_store st st'" then show ?thesis using inv by (rule same_store_entry_step)
  next
    assume "\<exists>q. nxsem_findholder cfg s (htcb (holder_at st p)) st = Some (Some q) \<and>
                 \<not> nxsched_verify_tcb st (htcb (holder_at st p)) \<and> entry_step cfg s q st st'"
    then show ?thesis using findholder_self[OF inv p l] by auto
  qed
  with r show ?thesis by blast
qed

lemma restoreholderprioall_step:
  assumes "store_inv cfg st" "p \<in> set (holder_ptrs cfg st s)" "htcb (holder_at st p) \<noteq> None"
  shows "\<exists>r st'. nxsem_restoreholderprioall cfg p s arg st = Some (r, st') \<and> entry_step cfg s p st st'"
  using restoreholderprio_entry[OF assms, of arg]
  by (auto simp: nxsem_restoreholderprioall_def simp del: holder_at.simps)

lemma restoreholderprio_others_step:
  assumes "store_inv cfg st" "p \<in> set (holder_ptrs cfg st s)" "htcb (holder_at st p) \<noteq> None"
  shows "\<exists>r st'. nxsem_restoreholderprio_others cfg p s arg st = Some (r, st') \<and> entry_step cfg s p st st'"
  using restoreholderprio_entry[OF assms, of arg] entry_step_refl[OF assms(1), of s p]
  by (auto simp: nxsem_restoreholderprio_others_def Let_def simp del: holder_at.simps)

lemma recoverholders_step:
  assumes "store_inv cfg st" "p \<in> set (holder_ptrs cfg st s)"
  shows "\<exists>r st'. nxsem_recoverholders cfg p s arg st = Some (r, st') \<and> entry_step cfg s p st st'"
  using freeholder_entry_step[OF assms]
  by (auto simp: nxsem_recoverholders_def)

lemma verifyholder_step:
  assumes "store_inv cfg st"
  shows "\<exists>r st'. nxsem_verifyholder p s arg st = Some (r, st') \<and> entry_step cfg s p st st'"
  using entry_step_refl[OF assms] by (simp add: nxsem_verifyholder_def)

lemma boostholderprio_store:
  assumes inv: "store_inv cfg st" and p: "p \<in> set (holder_ptrs cfg st s)"
  shows "\<exists>st'. nxsem_boostholderprio cfg p s arg st = Some (0, st') \<and>
           (if nxsched_verify_tcb st (htcb (holder_at st p)) then same_store st st'
            else entry_step cfg s p st st' \<and> htcb (holder_at st' p) = None)"
proof (cases "nxsched_verify_tcb st (htcb (holder_at st p))")
  case False
  let ?st1 = "log_event (Swarn_stale_handle (htcb (holder_at st p))) st"
  have ss: "same_store st ?st1" by simp
  have i1: "store_inv cfg ?st1" using inv same_store_inv[OF ss] by simp
  have q1: "p \<in> set (holder_ptrs cfg ?st1 s)"
    using p same_store_holder_ptrs[OF ss] by simp
  from freeholder_entry_step[OF i1 q1] obtain st' where
    r: "nxsem_freeholder cfg s p ?st1 = Some st'" and es: "entry_step cfg s p ?st1 st'"
    and n: "htcb (holder_at st' p) = None" by blast
  from same_store_then_entry_step[OF ss es] r n False show ?thesis
    by (simp add: nxsem_boostholderprio_def Let_def del: holder_at.simps)
next
  case True
  then obtain h where h: "htcb (holder_at st p) = Some h"
    by (cases "htcb (holder_at st p)") (auto simp: nxsched_verify_tcb_def)
  have "\<exists>st'. nxsem_boostholderprio cfg p s arg st = Some (0, st') \<and> same_store st st'"
    using True h
    by (auto simp: nxsem_boostholderprio_def Let_def same_store_def nxsched_set_priority_def
        log_event_def tcb_upd_def
        simp del: holder_at.simps split: option.splits prod.splits)
  with True show ?thesis by auto
qed

lemma boostholderprio_step:
  assumes "store_inv cfg st" "p \<in> set (holder_ptrs cfg st s)"
  shows "\<exists>r st'. nxsem_boostholderprio cfg p s arg st = Some (r, st') \<and> entry_step cfg s p st st'"
proof -
  from boostholderprio_store[OF assms, of arg] obtain st' where
    "nxsem_boostholderprio cfg p s arg st = Some (0, st')"
    "if nxsched_verify_tcb st (htcb (holder_at st p)) then same_store st st'
            else entry_step cfg s p st st' \<and> htcb (holder_at st' p) = None" by blast
  then show ?thesis using same_store_entry_step[OF _ assms(1), of st' s p]
    by (cases "nxsched_verify_tcb st (htcb (holder_at st p))") auto
qed

text \<open>nxsem_findandfreeholder frees the entry of the thread when it has no counts left.\<close>

lemma findandfreeholder_store:
  assumes inv: "store_inv cfg st"
  shows "\<exists>st'. nxsem_findandfreeholder cfg s t st = Some st' \<and> store_only st st' \<and>
           (case find (\<lambda>p. htcb (holder_at st p) = t) (holder_ptrs cfg st s) of
              None \<Rightarrow> st' = st
            | Some p \<Rightarrow> if sint (counts (holder_at st p)) \<le> 0
                        then entry_step cfg s p st st' \<and> htcb (holder_at st' p) = None
                        else st' = st)"
proof (cases "find (\<lambda>p. htcb (holder_at st p) = t) (holder_ptrs cfg st s)")
  case None
  with findholder_store[OF inv, of s t] show ?thesis
    by (simp add: nxsem_findandfreeholder_def)
next
  case (Some p)
  show ?thesis
  proof (cases "sint (counts (holder_at st p)) \<le> 0")
    case True
    from freeholder_entry_step[OF inv, of p s] find_Some_in[OF Some] obtain st' where
      "nxsem_freeholder cfg s p st = Some st'" "entry_step cfg s p st st'" "store_only st st'"
      "htcb (holder_at st' p) = None" by blast
    with findholder_store[OF inv, of s t] Some True show ?thesis
      by (simp add: nxsem_findandfreeholder_def del: holder_at.simps)
  next
    case False
    with findholder_store[OF inv, of s t] Some show ?thesis
      by (simp add: nxsem_findandfreeholder_def del: holder_at.simps)
  qed
qed

lemma find_entry_of:
  assumes inv: "store_inv cfg st" and p: "p \<in> set (holder_ptrs cfg st s)"
    and l: "htcb (holder_at st p) = Some t"
  shows "find (\<lambda>q. htcb (holder_at st q) = Some t) (holder_ptrs cfg st s) = Some p"
proof (rule find_first[where P = "\<lambda>q. htcb (holder_at st q) = Some t"])
  show "p \<in> set (holder_ptrs cfg st s)" by (rule p)
  show "htcb (holder_at st p) = Some t" by (rule l)
  fix y assume y: "y \<in> set (holder_ptrs cfg st s)" and e: "htcb (holder_at st y) = Some t"
  from live_unique[OF inv p y] l e show "y = p" by simp
qed

lemma restoreholderprio_self_step:
  assumes inv: "store_inv cfg st" and p: "p \<in> set (holder_ptrs cfg st s)"
    and l: "htcb (holder_at st p) \<noteq> None"
  shows "\<exists>r st'. nxsem_restoreholderprio_self cfg p s arg st = Some (r, st') \<and>
           entry_step cfg s p st st'"
proof (cases "htcb (holder_at st p) = Some (this_task st)")
  case False
  then show ?thesis using entry_step_refl[OF inv, of s p]
    by (simp add: nxsem_restoreholderprio_self_def Let_def del: holder_at.simps)
next
  case me: True
  let ?r = "this_task st"
  show ?thesis
  proof (cases "CONFIG_SEM_PREALLOCHOLDERS cfg = 0 \<and> sint (counts (holder_at st p)) \<le> 0")
    case False
    from findandfreeholder_store[OF inv, of s "Some ?r"] find_entry_of[OF inv p me] False
    have ff: "CONFIG_SEM_PREALLOCHOLDERS cfg = 0 \<Longrightarrow> nxsem_findandfreeholder cfg s (Some ?r) st = Some st"
      by (auto simp del: holder_at.simps)
    from restoreholderprio_entry[OF inv p l, of arg] me obtain st' where
      "nxsem_restoreholderprio cfg (Some ?r) s arg st = Some (0, st')" "entry_step cfg s p st st'"
      by auto
    then show ?thesis using me ff
      by (cases "CONFIG_SEM_PREALLOCHOLDERS cfg = 0")
         (simp_all add: nxsem_restoreholderprio_self_def Let_def del: holder_at.simps)
  next
    case True
    then have Z: "CONFIG_SEM_PREALLOCHOLDERS cfg = 0" and c0: "sint (counts (holder_at st p)) \<le> 0" by simp_all
    from findandfreeholder_store[OF inv, of s "Some ?r"] find_entry_of[OF inv p me] c0
    obtain st1 where ff: "nxsem_findandfreeholder cfg s (Some ?r) st = Some st1"
      and so: "store_only st st1"
      and es: "entry_step cfg s p st st1" and n1: "htcb (holder_at st1 p) = None"
      by (auto simp del: holder_at.simps)
    have i1: "store_inv cfg st1" using es by (rule entry_step_inv)
    from restoreholderprio_store[OF i1, of "Some ?r" s arg] obtain st2 where
      r: "nxsem_restoreholderprio cfg (Some ?r) s arg st1 = Some (0, st2)"
      and c: "same_store st1 st2 \<or>
            (\<exists>q. nxsem_findholder cfg s (Some ?r) st1 = Some (Some q) \<and>
                 \<not> nxsched_verify_tcb st1 (Some ?r) \<and> entry_step cfg s q st1 st2)"
      by blast
    have nf: "nxsem_findholder cfg s (Some ?r) st1 = Some None"
    proof -
      have ptrs: "holder_ptrs cfg st1 s = holder_ptrs cfg st s" using Z by (simp add: holder_ptrs_inline)
      have "\<And>q. q \<in> set (holder_ptrs cfg st1 s) \<Longrightarrow> htcb (holder_at st1 q) \<noteq> Some ?r"
      proof
        fix q assume q: "q \<in> set (holder_ptrs cfg st1 s)" and h: "htcb (holder_at st1 q) = Some ?r"
        then have qp: "q \<noteq> p" using n1 by auto
        have q0: "q \<in> set (holder_ptrs cfg st s)" using q ptrs by simp
        from es q0 qp have "htcb (holder_at st1 q) = htcb (holder_at st q)"
          unfolding entry_step_def by blast
        with h me have "htcb (holder_at st p) = htcb (holder_at st q)" by simp
        from live_unique[OF inv p q0 this l] qp show False by simp
      qed
      then have "find (\<lambda>q. htcb (holder_at st1 q) = Some ?r) (holder_ptrs cfg st1 s) = None"
        by (simp add: find_None_iff del: holder_at.simps)
      with findholder_store[OF i1, of s "Some ?r"] show ?thesis by simp
    qed
    from c nf have "same_store st1 st2" by simp
    from entry_step_same_store[OF es this] have "entry_step cfg s p st st2" .
    then show ?thesis using me Z ff r
      by (simp add: nxsem_restoreholderprio_self_def Let_def del: holder_at.simps)
  qed
qed

text \<open>
  The loop keeps the invariant of the store, and any property of the state the handler
  keeps, when every call of the handler at most frees the entry it is given.
\<close>

lemma foreachholder_entry_rule:
  assumes inv: "store_inv cfg st" and E: "E st"
    and h: "\<And>p st. store_inv cfg st \<Longrightarrow> E st \<Longrightarrow> p \<in> set (holder_ptrs cfg st s) \<Longrightarrow>
              htcb (holder_at st p) \<noteq> None \<Longrightarrow>
              \<exists>r st'. handler p s arg st = Some (r, st') \<and> entry_step cfg s p st st' \<and> E st'"
  shows "\<exists>r st'. nxsem_foreachholder cfg s handler arg st = Some (r, st') \<and> store_inv cfg st' \<and> E st'"
proof -
  define Q where "Q r ps st \<longleftrightarrow> store_inv cfg st \<and> suffix ps (holder_ptrs cfg st s) \<and> E st"
    for r :: int and ps st
  have "\<exists>r st' ps'. nxsem_foreachholder cfg s handler arg st = Some (r, st') \<and> Q r ps' st' \<and>
           (ps' = [] \<or> (0 < CONFIG_SEM_PREALLOCHOLDERS cfg \<and> r \<noteq> 0))"
  proof (rule foreachholder_rule[where Q = Q])
    show "Q 0 (holder_ptrs cfg st s) st" using inv E by (simp add: Q_def)
  next
    fix r ps st assume "Q r ps st"
    then show "store_inv cfg st \<and> suffix ps (holder_ptrs cfg st s)" by (simp add: Q_def)
  next
    fix r0 p ps st
    assume q: "Q r0 (p # ps) st" and l: "htcb (holder_at st p) \<noteq> None"
    then have i: "store_inv cfg st" and sf: "suffix (p # ps) (holder_ptrs cfg st s)" and e: "E st"
      by (simp_all add: Q_def)
    from sf have pin: "p \<in> set (holder_ptrs cfg st s)" by (auto simp: suffix_def)
    from h[OF i e pin l] obtain r st' where
      r: "handler p s arg st = Some (r, st')" and es: "entry_step cfg s p st st'" and e': "E st'"
      by blast
    have "suffix ps (holder_ptrs cfg st' s)"
    proof -
      from es have "holder_ptrs cfg st' s = holder_ptrs cfg st s \<or>
                    holder_ptrs cfg st' s = remove1 p (holder_ptrs cfg st s)"
        unfolding entry_step_def by (auto split: if_splits)
      then show ?thesis
        using suffix_tl[OF sf] suffix_remove1[OF holder_ptrs_distinct[OF i] sf] by auto
    qed
    with r es e' show "\<exists>r st'. handler p s arg st = Some (r, st') \<and> Q r ps st'"
      by (auto simp: Q_def entry_step_def)
  next
    fix r0 p ps st
    assume "Q r0 (p # ps) st"
    then show "Q r0 ps st" by (auto simp: Q_def dest: suffix_tl)
  qed
  then show ?thesis by (auto simp: Q_def)
qed

lemma inline_inv_slots:
  "inline_inv st \<longleftrightarrow>
     (\<forall>s. htcb (holder_at st (Builtin s 0)) \<noteq> None \<longrightarrow>
             htcb (holder_at st (Builtin s 0)) \<noteq> htcb (holder_at st (Builtin s 1)))"
  unfolding inline_inv_def ..

lemma holder_at_log [simp]: "holder_at (log_event e st) p = holder_at st p"
  by (rule same_store_holder_at) simp

lemma add_holder_inline:
  assumes ii: "inline_inv st" and Z: "CONFIG_SEM_PREALLOCHOLDERS cfg = 0"
  shows "nxsem_add_holder_tcb cfg (Some t) s st = Some Assertion_failed \<or>
         (\<exists>st'. nxsem_add_holder_tcb cfg (Some t) s st = Some (Ok st') \<and> inline_inv st')"
proof -
  have f: "nxsem_findholder cfg s (Some t) st =
      Some (find (\<lambda>p. htcb (holder_at st p) = Some t) [Builtin s 0, Builtin s 1])"
    using Z findholder_array_unfold[of st s "Some t"] by (simp add: nxsem_findholder_def)
  show ?thesis
    using ii Z unfolding inline_inv_slots
    by (auto simp: nxsem_add_holder_tcb_def nxsem_findorallocateholder_def f nxsem_allocholder_def
        DEBUGASSERT_def holder_at_Builtin_upd Let_def
        simp del: holder_at.simps holder_upd.simps)
qed

lemma release_holder_inline:
  assumes ii: "inline_inv st" and Z: "CONFIG_SEM_PREALLOCHOLDERS cfg = 0"
  shows "\<exists>st'. nxsem_release_holder cfg s st = Some st' \<and> inline_inv st'"
proof -
  have f: "nxsem_findholder cfg s (Some (this_task st)) st =
      Some (find (\<lambda>p. htcb (holder_at st p) = Some (this_task st)) [Builtin s 0, Builtin s 1])"
    using Z findholder_array_unfold[of st s "Some (this_task st)"] by (simp add: nxsem_findholder_def)
  show ?thesis
    using ii Z unfolding inline_inv_slots
    by (auto simp: nxsem_release_holder_def f holder_at_Builtin_upd Let_def
        simp del: holder_at.simps holder_upd.simps)
qed

lemma add_holder_store:
  assumes "store_inv cfg st"
  shows "nxsem_add_holder_tcb cfg (Some t) s st = Some Assertion_failed \<or>
         (\<exists>st'. nxsem_add_holder_tcb cfg (Some t) s st = Some (Ok st') \<and> store_inv cfg st')"
proof (cases "0 < CONFIG_SEM_PREALLOCHOLDERS cfg")
  case True
  with assms obtain FL L where "pool_inv cfg st FL L" by (auto simp: store_inv_def)
  from add_holder_pool[OF this True, of t s] True show ?thesis
    by (auto simp: store_inv_def)
next
  case False
  with assms add_holder_inline[of st cfg t s] show ?thesis by (auto simp: store_inv_def)
qed

lemma release_holder_store:
  assumes "store_inv cfg st"
  shows "\<exists>st'. nxsem_release_holder cfg s st = Some st' \<and> store_inv cfg st'"
proof (cases "0 < CONFIG_SEM_PREALLOCHOLDERS cfg")
  case True
  with assms obtain FL L where "pool_inv cfg st FL L" by (auto simp: store_inv_def)
  from release_pool[OF this True, of s] True show ?thesis
    by (auto simp: store_inv_def)
next
  case False
  with assms release_holder_inline[of st cfg s] show ?thesis by (auto simp: store_inv_def)
qed

subsection \<open>nxsem_initialize_holders\<close>

lemma init_fold_heap:
  "g_holderalloc (fold (\<lambda>i. node_upd i (\<lambda>h. h\<lparr>flink := Some (i + 1)\<rparr>)) [0..<k] st) =
     map (\<lambda>j. if j < k then (g_holderalloc st ! j)\<lparr>flink := Some (j + 1)\<rparr> else g_holderalloc st ! j)
         [0..<length (g_holderalloc st)]"
proof (induction k)
  case 0
  then show ?case by (simp add: map_nth)
next
  case (Suc k)
  define s1 where "s1 = fold (\<lambda>i. node_upd i (\<lambda>h. h\<lparr>flink := Some (i + 1)\<rparr>)) [0..<k] st"
  have e: "fold (\<lambda>i. node_upd i (\<lambda>h. h\<lparr>flink := Some (i + 1)\<rparr>)) [0..<Suc k] st =
         node_upd k (\<lambda>h. h\<lparr>flink := Some (k + 1)\<rparr>) s1"
    by (simp add: s1_def)
  have g: "g_holderalloc (node_upd k (\<lambda>h. h\<lparr>flink := Some (k + 1)\<rparr>) s1) =
         (g_holderalloc s1)[k := (g_holderalloc s1 ! k)\<lparr>flink := Some (k + 1)\<rparr>]"
    by (simp add: node_upd_def)
  show ?case unfolding e g Suc[folded s1_def]
    by (rule nth_equalityI) (auto simp: nth_upd)
qed

lemma init_fold_rest:
  "g_freeholders (fold (\<lambda>i. node_upd i (f i)) xs st) = g_freeholders st \<and>
   sems (fold (\<lambda>i. node_upd i (f i)) xs st) = sems st"
  by (induction xs arbitrary: st) (simp_all add: node_upd_def)

lemma init_heap:
  assumes N: "0 < CONFIG_SEM_PREALLOCHOLDERS cfg"
    and len: "length (g_holderalloc st) = CONFIG_SEM_PREALLOCHOLDERS cfg"
  shows "g_holderalloc (nxsem_initialize_holders cfg st) =
           map (\<lambda>j. (g_holderalloc st ! j)
                  \<lparr>flink := (if j < CONFIG_SEM_PREALLOCHOLDERS cfg - 1 then Some (j + 1) else None)\<rparr>)
               [0..<CONFIG_SEM_PREALLOCHOLDERS cfg]"
    and "g_freeholders (nxsem_initialize_holders cfg st) = Some 0"
    and "sems (nxsem_initialize_holders cfg st) = sems st"
proof -
  let ?N = "CONFIG_SEM_PREALLOCHOLDERS cfg"
  define st2 where "st2 = fold (\<lambda>i. node_upd i (\<lambda>h. h\<lparr>flink := Some (i + 1)\<rparr>)) [0..<?N - 1]
                            (st\<lparr>g_freeholders := Some 0\<rparr>)"
  have r: "nxsem_initialize_holders cfg st = node_upd (?N - 1) (\<lambda>h. h\<lparr>flink := None\<rparr>) st2"
    using N unfolding st2_def nxsem_initialize_holders_def Let_def by simp
  have h2: "g_holderalloc st2 =
     map (\<lambda>j. if j < ?N - 1 then (g_holderalloc st ! j)\<lparr>flink := Some (j + 1)\<rparr> else g_holderalloc st ! j)
         [0..<?N]"
    unfolding st2_def init_fold_heap using len by simp
  have rest: "g_freeholders st2 = Some 0" "sems st2 = sems st"
    unfolding st2_def
    using init_fold_rest[where xs = "[0..<?N - 1]" and st = "st\<lparr>g_freeholders := Some 0\<rparr>"
        and f = "\<lambda>i h. h\<lparr>flink := Some (i + 1)\<rparr>"]
    by simp_all
  have g: "g_holderalloc (node_upd (?N - 1) (\<lambda>h. h\<lparr>flink := None\<rparr>) st2) =
         (g_holderalloc st2)[?N - 1 := (g_holderalloc st2 ! (?N - 1))\<lparr>flink := None\<rparr>]"
    by (simp add: node_upd_def)
  show "g_holderalloc (nxsem_initialize_holders cfg st) =
           map (\<lambda>j. (g_holderalloc st ! j)
                  \<lparr>flink := (if j < ?N - 1 then Some (j + 1) else None)\<rparr>) [0..<?N]"
    unfolding r g h2 using N
    by (intro nth_equalityI) (auto simp: nth_upd)
  show "g_freeholders (nxsem_initialize_holders cfg st) = Some 0"
    unfolding r using rest by (simp add: node_upd_def)
  show "sems (nxsem_initialize_holders cfg st) = sems st"
    unfolding r using rest by (simp add: node_upd_def)
qed

lemma chain_upto:
  assumes "length h = N"
    and "\<And>j. j < N \<Longrightarrow> flink (h ! j) = (if j < N - 1 then Some (j + 1) else None)"
    and "k < N"
  shows "chain h (Some k) [k..<N]"
  using assms(3)
proof (induction "N - k" arbitrary: k)
  case 0
  then show ?case by simp
next
  case (Suc d)
  have up: "[k..<N] = k # [Suc k..<N]" using Suc.prems by (simp add: upt_conv_Cons)
  show ?case
  proof (cases "Suc k < N")
    case True
    from Suc.hyps(2) have "d = N - Suc k" by simp
    from Suc.hyps(1)[OF this True] have "chain h (Some (Suc k)) [Suc k..<N]" .
    then show ?thesis using up assms(1) assms(2)[of k] Suc.prems True by simp
  next
    case False
    then have "Suc k = N" using Suc.prems by simp
    then show ?thesis using up assms(1) assms(2)[of k] Suc.prems by auto
  qed
qed

text \<open>The free list built by nxsem_initialize_holders holds every node of the array, in order.\<close>

lemma initialize_holders_chain:
  assumes N: "0 < CONFIG_SEM_PREALLOCHOLDERS cfg"
    and len: "length (g_holderalloc st) = CONFIG_SEM_PREALLOCHOLDERS cfg"
  shows "chain (g_holderalloc (nxsem_initialize_holders cfg st))
               (g_freeholders (nxsem_initialize_holders cfg st))
               [0..<CONFIG_SEM_PREALLOCHOLDERS cfg]"
proof -
  note h = init_heap[OF N len]
  show ?thesis unfolding h(2)
    by (rule chain_upto) (use N in \<open>simp_all add: h(1)\<close>)
qed

lemma pool_inv_booted:
  assumes N: "0 < CONFIG_SEM_PREALLOCHOLDERS cfg"
  shows "pool_inv cfg (booted cfg) [0..<CONFIG_SEM_PREALLOCHOLDERS cfg] (\<lambda>s. [])"
proof -
  have len: "length (g_holderalloc (boot cfg)) = CONFIG_SEM_PREALLOCHOLDERS cfg"
    by (simp add: boot_def)
  note h = init_heap[OF N len]
  have z: "\<And>j. j < CONFIG_SEM_PREALLOCHOLDERS cfg \<Longrightarrow> g_holderalloc (boot cfg) ! j = zero_holder"
    by (simp add: boot_def)
  have sz: "\<And>s. hhead (sems (boot cfg) s) = None" by (simp add: boot_def zero_sem_def)
  show ?thesis unfolding booted_def
  proof (rule pool_invI)
    show "chain (g_holderalloc (nxsem_initialize_holders cfg (boot cfg)))
            (g_freeholders (nxsem_initialize_holders cfg (boot cfg))) [0..<CONFIG_SEM_PREALLOCHOLDERS cfg]"
      by (rule initialize_holders_chain[OF N len])
    show "length (g_holderalloc (nxsem_initialize_holders cfg (boot cfg))) = CONFIG_SEM_PREALLOCHOLDERS cfg"
      by (simp add: h(1))
    show "\<And>s. chain (g_holderalloc (nxsem_initialize_holders cfg (boot cfg)))
            (hhead (sems (nxsem_initialize_holders cfg (boot cfg)) s)) []"
      by (simp add: h(3) sz)
    show "\<And>n. n \<in> set [0..<CONFIG_SEM_PREALLOCHOLDERS cfg] \<Longrightarrow>
         htcb (g_holderalloc (nxsem_initialize_holders cfg (boot cfg)) ! n) = None \<and>
         counts (g_holderalloc (nxsem_initialize_holders cfg (boot cfg)) ! n) = 0"
      by (simp add: h(1) z zero_holder_def)
  qed auto
qed

lemma store_inv_booted: "store_inv cfg (booted cfg)"
proof (cases "0 < CONFIG_SEM_PREALLOCHOLDERS cfg")
  case True
  from pool_inv_booted[OF True] True show ?thesis by (auto simp: store_inv_def)
next
  case False
  then show ?thesis
    by (simp add: store_inv_def inline_inv_def booted_def nxsem_initialize_holders_def boot_def
        zero_sem_def zero_holder_def holder_get_def)
qed

subsection \<open>Every entry point keeps the invariant of the store\<close>

lemma foreachholder_store_inv:
  assumes inv: "store_inv cfg st"
    and h: "\<And>p st. store_inv cfg st \<Longrightarrow> p \<in> set (holder_ptrs cfg st s) \<Longrightarrow>
              htcb (holder_at st p) \<noteq> None \<Longrightarrow>
              \<exists>r st'. handler p s arg st = Some (r, st') \<and> entry_step cfg s p st st'"
  shows "\<exists>r st'. nxsem_foreachholder cfg s handler arg st = Some (r, st') \<and> store_inv cfg st'"
proof -
  have "\<exists>r st'. nxsem_foreachholder cfg s handler arg st = Some (r, st') \<and> store_inv cfg st' \<and> True"
    by (rule foreachholder_entry_rule[where E = "\<lambda>_. True", OF inv]) (use h in auto)
  then show ?thesis by simp
qed

lemma foreach_boost_store:
  "store_inv cfg st \<Longrightarrow>
   \<exists>r st'. nxsem_foreachholder cfg s (nxsem_boostholderprio cfg) arg st = Some (r, st') \<and> store_inv cfg st'"
  by (rule foreachholder_store_inv) (auto intro: boostholderprio_step)

lemma foreach_restoreall_store:
  "store_inv cfg st \<Longrightarrow>
   \<exists>r st'. nxsem_foreachholder cfg s (nxsem_restoreholderprioall cfg) arg st = Some (r, st') \<and> store_inv cfg st'"
  by (rule foreachholder_store_inv) (auto intro: restoreholderprioall_step)

lemma foreach_others_store:
  "store_inv cfg st \<Longrightarrow>
   \<exists>r st'. nxsem_foreachholder cfg s (nxsem_restoreholderprio_others cfg) arg st = Some (r, st') \<and> store_inv cfg st'"
  by (rule foreachholder_store_inv) (auto intro: restoreholderprio_others_step)

lemma foreach_self_store:
  "store_inv cfg st \<Longrightarrow>
   \<exists>r st'. nxsem_foreachholder cfg s (nxsem_restoreholderprio_self cfg) arg st = Some (r, st') \<and> store_inv cfg st'"
  by (rule foreachholder_store_inv) (auto intro: restoreholderprio_self_step)

lemma foreach_verify_store:
  "store_inv cfg st \<Longrightarrow>
   \<exists>r st'. nxsem_foreachholder cfg s nxsem_verifyholder arg st = Some (r, st') \<and> store_inv cfg st'"
  by (rule foreachholder_store_inv) (auto intro: verifyholder_step)

lemma foreach_recover_store:
  "store_inv cfg st \<Longrightarrow>
   \<exists>r st'. nxsem_foreachholder cfg s (nxsem_recoverholders cfg) arg st = Some (r, st') \<and> store_inv cfg st'"
  by (rule foreachholder_store_inv) (auto intro: recoverholders_step)

lemma boost_priority_store:
  assumes "store_inv cfg st"
  shows "\<exists>st'. nxsem_boost_priority cfg s st = Some st' \<and> store_inv cfg st'"
  using foreach_boost_store[OF assms, of s "Some (this_task st)"]
  by (auto simp: nxsem_boost_priority_def Let_def)

lemma restore_baseprio_irq_store:
  assumes "store_inv cfg st"
  shows "\<exists>st'. nxsem_restore_baseprio_irq cfg stcb s st = Some st' \<and> store_inv cfg st'"
  using foreach_restoreall_store[OF assms, of s stcb] foreach_verify_store[OF assms, of s None] assms
  by (auto simp: nxsem_restore_baseprio_irq_def)

lemma findandfreeholder_store_inv:
  assumes "store_inv cfg st"
  shows "\<exists>st'. nxsem_findandfreeholder cfg s t st = Some st' \<and> store_inv cfg st'"
proof -
  from findandfreeholder_store[OF assms, of s t] obtain st' where
    r: "nxsem_findandfreeholder cfg s t st = Some st'"
    and c: "(case find (\<lambda>p. htcb (holder_at st p) = t) (holder_ptrs cfg st s) of
              None \<Rightarrow> st' = st
            | Some p \<Rightarrow> if sint (counts (holder_at st p)) \<le> 0
                        then entry_step cfg s p st st' \<and> htcb (holder_at st' p) = None
                        else st' = st)" by blast
  from c assms have "store_inv cfg st'"
    by (auto simp: entry_step_def split: option.splits if_splits)
  with r show ?thesis by blast
qed

lemma restore_baseprio_task_store:
  assumes "store_inv cfg st"
  shows "\<exists>st'. nxsem_restore_baseprio_task cfg stcb s st = Some st' \<and> store_inv cfg st'"
proof -
  let ?mid = "(if stcb \<noteq> None then
           (case nxsem_foreachholder cfg s (nxsem_restoreholderprio_others cfg) stcb st of
              None \<Rightarrow> None
            | Some (r1, st1) \<Rightarrow>
                map_option snd (nxsem_foreachholder cfg s (nxsem_restoreholderprio_self cfg) stcb st1))
         else if CONFIG_DEBUG_ASSERTIONS cfg then
           map_option snd (nxsem_foreachholder cfg s nxsem_verifyholder None st)
         else Some st)"
  have "\<exists>st2. ?mid = Some st2 \<and> store_inv cfg st2"
  proof (cases "stcb \<noteq> None")
    case True
    from foreach_others_store[OF assms, of s stcb] obtain r1 st1 where
      a: "nxsem_foreachholder cfg s (nxsem_restoreholderprio_others cfg) stcb st = Some (r1, st1)"
      and i1: "store_inv cfg st1" by blast
    from foreach_self_store[OF i1, of s stcb] obtain r2 st2 where
      "nxsem_foreachholder cfg s (nxsem_restoreholderprio_self cfg) stcb st1 = Some (r2, st2)"
      "store_inv cfg st2" by blast
    with a True show ?thesis by simp
  next
    case False
    with foreach_verify_store[OF assms, of s None] assms show ?thesis by auto
  qed
  then obtain st2 where m: "?mid = Some st2" and i2: "store_inv cfg st2" by blast
  from findandfreeholder_store_inv[OF i2, of s "Some (this_task st)"] m show ?thesis
    unfolding nxsem_restore_baseprio_task_def Let_def by simp
qed

lemma restore_baseprio_store:
  assumes "store_inv cfg st"
  shows "\<exists>st'. nxsem_restore_baseprio cfg stcb s st = Some st' \<and> store_inv cfg st'"
  using restore_baseprio_irq_store[OF assms] restore_baseprio_task_store[OF assms]
  by (simp add: nxsem_restore_baseprio_def)

lemma canceled_store:
  assumes "store_inv cfg st"
  shows "nxsem_canceled cfg stcb s st = Some Assertion_failed \<or>
         (\<exists>st'. nxsem_canceled cfg stcb s st = Some (Ok st') \<and> store_inv cfg st')"
  using foreach_restoreall_store[OF assms, of s stcb]
  by (auto simp: nxsem_canceled_def DEBUGASSERT_def)

lemma destroyholder_store:
  assumes "store_inv cfg st"
  shows "nxsem_destroyholder cfg s st = Some Assertion_failed \<or>
         (\<exists>st'. nxsem_destroyholder cfg s st = Some (Ok st') \<and> store_inv cfg st')"
proof (cases "0 < CONFIG_SEM_PREALLOCHOLDERS cfg")
  case True
  with foreach_recover_store[OF assms, of s None] assms show ?thesis
    by (auto simp: nxsem_destroyholder_def DEBUGASSERT_def split: option.splits)
next
  case False
  with assms have ii: "inline_inv st" by (simp add: store_inv_def)
  have "inline_inv (holder_upd (Builtin s 1) (\<lambda>h. h\<lparr>htcb := None\<rparr>)
                        (holder_upd (Builtin s 0) (\<lambda>h. h\<lparr>htcb := None\<rparr>) st))"
    using ii unfolding inline_inv_slots
    by (auto simp: holder_at_Builtin_upd simp del: holder_at.simps holder_upd.simps)
  with False show ?thesis
    by (auto simp: nxsem_destroyholder_def DEBUGASSERT_def store_inv_def
        simp del: holder_at.simps holder_upd.simps)
qed

lemma exec_op_store:
  assumes "store_inv cfg st" "exec_op cfg x st = Some (Ok st')"
  shows "store_inv cfg st'"
proof (cases x)
  case (Add_holder s)
  with assms add_holder_store[OF assms(1), of "this_task st" s] show ?thesis
    by (auto simp: nxsem_add_holder_def)
next
  case (Add_holder_tcb t s)
  with assms add_holder_store[OF assms(1), of t s] show ?thesis by auto
next
  case (Release_holder s)
  with assms release_holder_store[OF assms(1), of s] show ?thesis by auto
next
  case (Boost_priority s)
  with assms boost_priority_store[OF assms(1), of s] show ?thesis by auto
next
  case (Restore_baseprio stcb s)
  with assms restore_baseprio_store[OF assms(1), of stcb s] show ?thesis by auto
next
  case (Canceled stcb s)
  with assms canceled_store[OF assms(1), of stcb s] show ?thesis by auto
next
  case (Destroyholder s)
  with assms destroyholder_store[OF assms(1), of s] show ?thesis by auto
qed

text \<open>The invariant of the store holds in every reachable state.\<close>

lemma reachable_store_inv: "reachable cfg st \<Longrightarrow> store_inv cfg st"
proof (induction rule: reachable.induct)
  case boot
  show ?case using store_inv_booted by (simp add: booted_def)
next
  case (call st x st')
  then show ?case using exec_op_store by blast
next
  case (rest st st')
  then show ?case using same_store_inv by blast
qed

lemma exec_ops_reachable:
  "reachable cfg st \<Longrightarrow> exec_ops cfg xs st = Some (Ok st') \<Longrightarrow> reachable cfg st'"
proof (induction xs arbitrary: st)
  case Nil
  then show ?case by simp
next
  case (Cons x xs)
  from Cons.prems(2) obtain st1 where a: "exec_op cfg x st = Some (Ok st1)"
    and b: "exec_ops cfg xs st1 = Some (Ok st')"
    by (auto split: option.splits result.splits)
  from Cons.IH[OF reachable.call[OF Cons.prems(1) a] b] show ?case .
qed

lemma reachable_after:
  "reachable cfg st \<Longrightarrow> runs_ok cfg st xs \<Longrightarrow> reachable cfg (after cfg st xs)"
  using exec_ops_reachable[of cfg st xs]
  by (auto simp: runs_ok_def after_def split: option.splits result.splits)

lemma reachable_booted: "reachable cfg (booted cfg)"
  unfolding booted_def by (rule reachable.boot)

lemma live_holders_subset: "set (live_holders cfg st s) \<subseteq> set (holder_ptrs cfg st s)"
  by (auto simp: live_holders_def)

lemma live_holders_live: "p \<in> set (live_holders cfg st s) \<Longrightarrow> htcb (holder_at st p) \<noteq> None"
  by (auto simp: live_holders_def simp del: holder_at.simps)

lemma live_holders_distinct_htcb:
  assumes inv: "store_inv cfg st"
  shows "distinct (map (\<lambda>p. htcb (holder_at st p)) (live_holders cfg st s))"
proof -
  have d: "distinct (live_holders cfg st s)"
    using holder_ptrs_distinct[OF inv, of s] by (simp add: live_holders_def)
  have "inj_on (\<lambda>p. htcb (holder_at st p)) (set (live_holders cfg st s))"
  proof (rule inj_onI)
    fix p q assume p: "p \<in> set (live_holders cfg st s)" and q: "q \<in> set (live_holders cfg st s)"
      and e: "htcb (holder_at st p) = htcb (holder_at st q)"
    from live_unique[OF inv _ _ e live_holders_live[OF p]] p q live_holders_subset[of cfg st s]
    show "p = q" by blast
  qed
  with d show ?thesis by (simp add: distinct_map)
qed

lemma distinct_map_filter_le1:
  assumes "distinct (map f xs)"
  shows "length (filter (\<lambda>x. f x = v) xs) \<le> 1"
  using assms
proof (induction xs)
  case Nil
  then show ?case by simp
next
  case (Cons a xs)
  show ?case
  proof (cases "f a = v")
    case True
    with Cons.prems have "\<And>x. x \<in> set xs \<Longrightarrow> f x \<noteq> v" by (auto simp: image_iff)
    then have "filter (\<lambda>x. f x = v) xs = []" by (simp add: filter_empty_conv)
    with True show ?thesis by simp
  next
    case False
    with Cons show ?thesis by simp
  qed
qed

text \<open>
  C9. In every reachable state the live holder entries of a semaphore name pairwise
  different threads, so at most one live entry of the semaphore names a given thread;
  reachable states are those any sequence of the entry points (with any activity of the
  rest of the kernel in between) leads to from boot.
\<close>

theorem C9_live_holders_name_distinct_threads:
  assumes "reachable cfg st"
  shows "distinct (map (\<lambda>p. htcb (holder_at st p)) (live_holders cfg st s)) \<and>
         length (filter (\<lambda>p. htcb (holder_at st p) = Some t) (live_holders cfg st s)) \<le> 1"
  using live_holders_distinct_htcb[OF reachable_store_inv[OF assms], of s]
    distinct_map_filter_le1[of "\<lambda>p. htcb (holder_at st p)" "live_holders cfg st s" "Some t"]
  by simp

text \<open>C9, witness: threads 1 and 2 each took semaphore 0, twice for thread 1, pooled regime.\<close>

theorem C9_witness:
  "distinct (map (\<lambda>p. htcb (holder_at
       (after cfg_pooled (booted cfg_pooled) [Add_holder_tcb 1 0, Add_holder_tcb 2 0, Add_holder_tcb 1 0]) p))
     (live_holders cfg_pooled
       (after cfg_pooled (booted cfg_pooled) [Add_holder_tcb 1 0, Add_holder_tcb 2 0, Add_holder_tcb 1 0]) 0)) \<and>
   length (filter (\<lambda>p. htcb (holder_at
       (after cfg_pooled (booted cfg_pooled) [Add_holder_tcb 1 0, Add_holder_tcb 2 0, Add_holder_tcb 1 0]) p) = Some 1)
     (live_holders cfg_pooled
       (after cfg_pooled (booted cfg_pooled) [Add_holder_tcb 1 0, Add_holder_tcb 2 0, Add_holder_tcb 1 0]) 0)) \<le> 1 \<and>
   length (live_holders cfg_pooled
       (after cfg_pooled (booted cfg_pooled) [Add_holder_tcb 1 0, Add_holder_tcb 2 0, Add_holder_tcb 1 0]) 0) = 2"
proof -
  let ?S = "after cfg_pooled (booted cfg_pooled) [Add_holder_tcb 1 0, Add_holder_tcb 2 0, Add_holder_tcb 1 0]"
  have ok: "runs_ok cfg_pooled (booted cfg_pooled) [Add_holder_tcb 1 0, Add_holder_tcb 2 0, Add_holder_tcb 1 0]"
    by code_simp
  have r: "reachable cfg_pooled ?S" by (rule reachable_after[OF reachable_booted ok])
  have n: "length (live_holders cfg_pooled ?S 0) = 2" by code_simp
  from C9_live_holders_name_distinct_threads[OF r, of 0 1] n show ?thesis by simp
qed

lemma live_holders_pool:
  assumes pi: "pool_inv cfg st FL L" and N: "0 < CONFIG_SEM_PREALLOCHOLDERS cfg"
  shows "live_holders cfg st s = map Prealloc (L s)"
proof -
  have "\<And>p. p \<in> set (map Prealloc (L s)) \<Longrightarrow> htcb (holder_at st p) \<noteq> None"
    using pool_invD(8)[OF pi, of _ s] by auto
  then show ?thesis
    unfolding live_holders_def holder_ptrs_pool[OF pi N] by (simp del: holder_at.simps)
qed

lemma free_nodes_pool:
  assumes pi: "pool_inv cfg st FL L"
  shows "free_nodes st = FL"
  unfolding free_nodes_def
  using walk_chain[OF pool_invD(2)[OF pi] chain_length[OF pool_invD(2)[OF pi]]] .

lemma holder_at_upd_ptrs:
  assumes inv: "store_inv cfg st"
    and p: "p \<in> set (holder_ptrs cfg st s)" and q: "q \<in> set (holder_ptrs cfg st s')"
  shows "holder_at (holder_upd p f st) q = (if q = p then f (holder_at st p) else holder_at st q)"
proof (cases "0 < CONFIG_SEM_PREALLOCHOLDERS cfg")
  case True
  with inv obtain FL L where pi: "pool_inv cfg st FL L" by (auto simp: store_inv_def)
  from p holder_ptrs_pool[OF pi True, of s] obtain n where n: "p = Prealloc n" "n \<in> set (L s)" by auto
  from q holder_ptrs_pool[OF pi True, of s'] obtain m where m: "q = Prealloc m" "m \<in> set (L s')" by auto
  have "n < length (g_holderalloc st)" using chain_bound[OF pool_invD(3)[OF pi] n(2)] .
  then show ?thesis using n m by (simp add: node_upd_def nth_upd)
next
  case False
  from p False obtain i where i: "p = Builtin s i" "i = 0 \<or> i = 1" by (auto simp: holder_ptrs_inline)
  from q False obtain j where j: "q = Builtin s' j" "j = 0 \<or> j = 1" by (auto simp: holder_ptrs_inline)
  show ?thesis unfolding i(1) j(1) holder_at_Builtin_upd using i(2) j(2) by auto
qed

lemma holder_ptrs_upd_counts:
  assumes inv: "store_inv cfg st" and p: "p \<in> set (holder_ptrs cfg st s)"
  shows "store_inv cfg (holder_upd p (\<lambda>h. h\<lparr>counts := c h\<rparr>) st) \<and>
         holder_ptrs cfg (holder_upd p (\<lambda>h. h\<lparr>counts := c h\<rparr>) st) s' = holder_ptrs cfg st s'"
proof (cases "0 < CONFIG_SEM_PREALLOCHOLDERS cfg")
  case True
  with inv obtain FL L where pi: "pool_inv cfg st FL L" by (auto simp: store_inv_def)
  from p holder_ptrs_pool[OF pi True, of s] obtain n where n: "p = Prealloc n" "n \<in> set (L s)" by auto
  have pi': "pool_inv cfg (st\<lparr>g_holderalloc := (g_holderalloc st)[n := (g_holderalloc st ! n)\<lparr>counts := c (g_holderalloc st ! n)\<rparr>]\<rparr>) FL L"
    by (intro pool_inv_counts[OF pi n(2)]) simp_all
  have e: "holder_upd p (\<lambda>h. h\<lparr>counts := c h\<rparr>) st =
        st\<lparr>g_holderalloc := (g_holderalloc st)[n := (g_holderalloc st ! n)\<lparr>counts := c (g_holderalloc st ! n)\<rparr>]\<rparr>"
    using n by (simp add: node_upd_def)
  show ?thesis unfolding e
    using holder_ptrs_pool[OF pi True] holder_ptrs_pool[OF pi' True] store_inv_poolI[OF pi' True] by simp
next
  case False
  from p False obtain i where i: "p = Builtin s i" by (auto simp: holder_ptrs_inline)
  from inv False have ii: "inline_inv st" by (simp add: store_inv_def)
  have "inline_inv (holder_upd p (\<lambda>h. h\<lparr>counts := c h\<rparr>) st)"
    using ii unfolding i inline_inv_def holder_at_Builtin_upd by auto
  then show ?thesis using False by (simp add: store_inv_def holder_ptrs_inline)
qed

text \<open>nxsem_release_holder decrements the counts of the entry of the running thread, and
  leaves the entry where it is.\<close>

lemma release_holder_effect:
  assumes inv: "store_inv cfg st"
  shows "\<exists>st'. nxsem_release_holder cfg s st = Some st' \<and> store_inv cfg st' \<and>
           (\<forall>s'. holder_ptrs cfg st' s' = holder_ptrs cfg st s') \<and>
           (\<forall>q \<in> set (holder_ptrs cfg st s).
               htcb (holder_at st' q) = htcb (holder_at st q) \<and>
               counts (holder_at st' q) =
                 (if htcb (holder_at st q) = Some (this_task st) \<and> 0 < sint (counts (holder_at st q))
                  then counts (holder_at st q) - 1 else counts (holder_at st q)))"
proof (cases "find (\<lambda>p. htcb (holder_at st p) = Some (this_task st)) (holder_ptrs cfg st s)")
  case None
  then have r: "nxsem_release_holder cfg s st = Some st"
    using findholder_store[OF inv, of s "Some (this_task st)"] by (simp add: nxsem_release_holder_def)
  have "\<And>q. q \<in> set (holder_ptrs cfg st s) \<Longrightarrow> htcb (holder_at st q) \<noteq> Some (this_task st)"
    using find_None_all[OF None] by blast
  with r inv show ?thesis by (simp del: holder_at.simps)
next
  case (Some p)
  from find_Some_in[OF Some] have p: "p \<in> set (holder_ptrs cfg st s)"
    and hp: "htcb (holder_at st p) = Some (this_task st)" by simp_all
  have u: "\<And>q. q \<in> set (holder_ptrs cfg st s) \<Longrightarrow> htcb (holder_at st q) = Some (this_task st) \<Longrightarrow> q = p"
    using live_unique[OF inv p _ _ ] hp by (metis option.distinct(1))
  show ?thesis
  proof (cases "0 < sint (counts (holder_at st p))")
    case False
    then have r: "nxsem_release_holder cfg s st = Some st"
      using findholder_store[OF inv, of s "Some (this_task st)"] Some
      by (simp add: nxsem_release_holder_def del: holder_at.simps)
    have "\<And>q. q \<in> set (holder_ptrs cfg st s) \<Longrightarrow>
       \<not> (htcb (holder_at st q) = Some (this_task st) \<and> 0 < sint (counts (holder_at st q)))"
      using u False by blast
    with r inv show ?thesis by (simp del: holder_at.simps)
  next
    case True
    define st' where "st' = holder_upd p (\<lambda>h. h\<lparr>counts := counts h - 1\<rparr>) st"
    have r: "nxsem_release_holder cfg s st = Some st'"
      using findholder_store[OF inv, of s "Some (this_task st)"] Some True
      by (simp add: nxsem_release_holder_def st'_def del: holder_at.simps holder_upd.simps)
    note hu = holder_ptrs_upd_counts[OF inv p, of "\<lambda>h. counts h - 1", folded st'_def]
    have c: "\<forall>q \<in> set (holder_ptrs cfg st s).
               htcb (holder_at st' q) = htcb (holder_at st q) \<and>
               counts (holder_at st' q) =
                 (if htcb (holder_at st q) = Some (this_task st) \<and> 0 < sint (counts (holder_at st q))
                  then counts (holder_at st q) - 1 else counts (holder_at st q))"
    proof
      fix q assume q: "q \<in> set (holder_ptrs cfg st s)"
      note a = holder_at_upd_ptrs[OF inv p q, of "\<lambda>h. h\<lparr>counts := counts h - 1\<rparr>", folded st'_def]
      show "htcb (holder_at st' q) = htcb (holder_at st q) \<and>
               counts (holder_at st' q) =
                 (if htcb (holder_at st q) = Some (this_task st) \<and> 0 < sint (counts (holder_at st q))
                  then counts (holder_at st q) - 1 else counts (holder_at st q))"
      proof (cases "q = p")
        case True
        then show ?thesis using a hp \<open>0 < sint (counts (holder_at st p))\<close> by (simp del: holder_at.simps)
      next
        case False
        then have "htcb (holder_at st q) \<noteq> Some (this_task st)" using u[OF q] by blast
        then show ?thesis using a False by (simp del: holder_at.simps)
      qed
    qed
    from r hu c show ?thesis by blast
  qed
qed

lemma release_holder_live:
  assumes inv: "store_inv cfg st"
  shows "\<exists>st'. nxsem_release_holder cfg s st = Some st' \<and>
           live_holders cfg st' s = live_holders cfg st s \<and>
           (\<forall>p \<in> set (live_holders cfg st s).
               htcb (holder_at st' p) = htcb (holder_at st p) \<and>
               counts (holder_at st' p) =
                 (if htcb (holder_at st p) = Some (this_task st) \<and> 0 < sint (counts (holder_at st p))
                  then counts (holder_at st p) - 1 else counts (holder_at st p)))"
proof -
  from release_holder_effect[OF inv, of s] obtain st' where
    r: "nxsem_release_holder cfg s st = Some st'"
    and hp: "\<And>s'. holder_ptrs cfg st' s' = holder_ptrs cfg st s'"
    and c: "\<forall>q \<in> set (holder_ptrs cfg st s).
               htcb (holder_at st' q) = htcb (holder_at st q) \<and>
               counts (holder_at st' q) =
                 (if htcb (holder_at st q) = Some (this_task st) \<and> 0 < sint (counts (holder_at st q))
                  then counts (holder_at st q) - 1 else counts (holder_at st q))" by blast
  have l: "live_holders cfg st' s = live_holders cfg st s"
    unfolding live_holders_def hp using c by (intro filter_cong) simp_all
  from r l c live_holders_subset[of cfg st s] show ?thesis by blast
qed

text \<open>nxsem_findandfreeholder leaves no entry of the thread that has no counts, and keeps
  every other entry.\<close>

lemma findandfreeholder_post:
  assumes inv: "store_inv cfg st"
  shows "\<exists>st'. nxsem_findandfreeholder cfg s t st = Some st' \<and> store_inv cfg st' \<and>
           (\<forall>p \<in> set (live_holders cfg st' s).
               htcb (holder_at st' p) = t \<longrightarrow> 0 < sint (counts (holder_at st' p))) \<and>
           (\<forall>p \<in> set (live_holders cfg st s).
               htcb (holder_at st p) \<noteq> t \<or> 0 < sint (counts (holder_at st p)) \<longrightarrow>
               p \<in> set (live_holders cfg st' s) \<and> htcb (holder_at st' p) = htcb (holder_at st p) \<and>
               counts (holder_at st' p) = counts (holder_at st p))"
proof -
  from findandfreeholder_store[OF inv, of s t] obtain st' where
    r: "nxsem_findandfreeholder cfg s t st = Some st'"
    and c: "(case find (\<lambda>p. htcb (holder_at st p) = t) (holder_ptrs cfg st s) of
              None \<Rightarrow> st' = st
            | Some p \<Rightarrow> if sint (counts (holder_at st p)) \<le> 0
                        then entry_step cfg s p st st' \<and> htcb (holder_at st' p) = None
                        else st' = st)" by blast
  show ?thesis
  proof (cases "find (\<lambda>p. htcb (holder_at st p) = t) (holder_ptrs cfg st s)")
    case None
    with c have e: "st' = st" by simp
    have "\<And>p. p \<in> set (live_holders cfg st s) \<Longrightarrow> htcb (holder_at st p) \<noteq> t"
      using find_None_all[OF None] live_holders_subset[of cfg st s] by blast
    with r inv show ?thesis unfolding e by (simp del: holder_at.simps)
  next
    case (Some p0)
    from find_Some_in[OF Some] have p0: "p0 \<in> set (holder_ptrs cfg st s)"
      and h0: "htcb (holder_at st p0) = t" by simp_all
    have u: "\<And>q. q \<in> set (live_holders cfg st s) \<Longrightarrow> htcb (holder_at st q) = t \<Longrightarrow> q = p0"
    proof -
      fix q assume q: "q \<in> set (live_holders cfg st s)" and e: "htcb (holder_at st q) = t"
      have q1: "q \<in> set (holder_ptrs cfg st s)" using q live_holders_subset[of cfg st s] by blast
      have "htcb (holder_at st q) \<noteq> None" using q by (rule live_holders_live)
      from live_unique[OF inv q1 p0 _ this] e h0 show "q = p0" by simp
    qed
    show ?thesis
    proof (cases "sint (counts (holder_at st p0)) \<le> 0")
      case False
      with c Some have e: "st' = st" by simp
      have "\<And>p. p \<in> set (live_holders cfg st s) \<Longrightarrow> htcb (holder_at st p) = t \<Longrightarrow>
                 0 < sint (counts (holder_at st p))" using u False by fastforce
      with r inv show ?thesis unfolding e by (simp del: holder_at.simps)
    next
      case True
      with c Some have es: "entry_step cfg s p0 st st'" and n0: "htcb (holder_at st' p0) = None" by simp_all
      from es have inv': "store_inv cfg st'" by (rule entry_step_inv)
      from es have oth: "\<And>q. q \<in> set (holder_ptrs cfg st s) \<Longrightarrow> q \<noteq> p0 \<Longrightarrow>
          htcb (holder_at st' q) = htcb (holder_at st q) \<and> counts (holder_at st' q) = counts (holder_at st q)"
        unfolding entry_step_def by blast
      from es have hp: "holder_ptrs cfg st' s = holder_ptrs cfg st s \<or>
           holder_ptrs cfg st' s = remove1 p0 (holder_ptrs cfg st s)"
        unfolding entry_step_def by (auto split: if_splits)
      have sub: "set (holder_ptrs cfg st' s) \<subseteq> set (holder_ptrs cfg st s)"
        using hp set_remove1_subset[of p0 "holder_ptrs cfg st s"] by auto
      have a: "\<forall>p \<in> set (live_holders cfg st' s).
               htcb (holder_at st' p) = t \<longrightarrow> 0 < sint (counts (holder_at st' p))"
      proof (intro ballI impI)
        fix p assume p: "p \<in> set (live_holders cfg st' s)" and e: "htcb (holder_at st' p) = t"
        have l: "htcb (holder_at st' p) \<noteq> None" using p by (rule live_holders_live)
        with n0 have ne: "p \<noteq> p0" by auto
        have p1: "p \<in> set (holder_ptrs cfg st s)" using p live_holders_subset[of cfg st' s] sub by blast
        from oth[OF p1 ne] e l have "htcb (holder_at st p) = t" "htcb (holder_at st p) \<noteq> None" by simp_all
        then have "p \<in> set (live_holders cfg st s)" using p1 by (simp add: live_holders_def del: holder_at.simps)
        from u[OF this \<open>htcb (holder_at st p) = t\<close>] ne show "0 < sint (counts (holder_at st' p))" by simp
      qed
      have b: "\<forall>p \<in> set (live_holders cfg st s).
               htcb (holder_at st p) \<noteq> t \<or> 0 < sint (counts (holder_at st p)) \<longrightarrow>
               p \<in> set (live_holders cfg st' s) \<and> htcb (holder_at st' p) = htcb (holder_at st p) \<and>
               counts (holder_at st' p) = counts (holder_at st p)"
      proof (intro ballI impI)
        fix p assume p: "p \<in> set (live_holders cfg st s)"
          and e: "htcb (holder_at st p) \<noteq> t \<or> 0 < sint (counts (holder_at st p))"
        have ne: "p \<noteq> p0" using e h0 True by auto
        have p1: "p \<in> set (holder_ptrs cfg st s)" using p live_holders_subset[of cfg st s] by blast
        have l: "htcb (holder_at st p) \<noteq> None" using p by (rule live_holders_live)
        have "p \<in> set (holder_ptrs cfg st' s)" using hp p1 ne by auto
        with oth[OF p1 ne] l show "p \<in> set (live_holders cfg st' s) \<and> htcb (holder_at st' p) = htcb (holder_at st p) \<and>
               counts (holder_at st' p) = counts (holder_at st p)"
          by (simp add: live_holders_def del: holder_at.simps)
      qed
      from r inv' a b show ?thesis by blast
    qed
  qed
qed

lemma restore_baseprio_task_post:
  assumes "store_inv cfg st"
  shows "\<exists>st'. nxsem_restore_baseprio_task cfg stcb s st = Some st' \<and>
           (\<forall>p \<in> set (live_holders cfg st' s).
               htcb (holder_at st' p) = Some (this_task st) \<longrightarrow> 0 < sint (counts (holder_at st' p)))"
proof -
  let ?mid = "(if stcb \<noteq> None then
           (case nxsem_foreachholder cfg s (nxsem_restoreholderprio_others cfg) stcb st of
              None \<Rightarrow> None
            | Some (r1, st1) \<Rightarrow>
                map_option snd (nxsem_foreachholder cfg s (nxsem_restoreholderprio_self cfg) stcb st1))
         else if CONFIG_DEBUG_ASSERTIONS cfg then
           map_option snd (nxsem_foreachholder cfg s nxsem_verifyholder None st)
         else Some st)"
  have "\<exists>st2. ?mid = Some st2 \<and> store_inv cfg st2"
  proof (cases "stcb \<noteq> None")
    case True
    from foreach_others_store[OF assms, of s stcb] obtain r1 st1 where
      a: "nxsem_foreachholder cfg s (nxsem_restoreholderprio_others cfg) stcb st = Some (r1, st1)"
      and i1: "store_inv cfg st1" by blast
    from foreach_self_store[OF i1, of s stcb] obtain r2 st2 where
      "nxsem_foreachholder cfg s (nxsem_restoreholderprio_self cfg) stcb st1 = Some (r2, st2)"
      "store_inv cfg st2" by blast
    with a True show ?thesis by simp
  next
    case False
    with foreach_verify_store[OF assms, of s None] assms show ?thesis by auto
  qed
  then obtain st2 where m: "?mid = Some st2" and i2: "store_inv cfg st2" by blast
  from findandfreeholder_post[OF i2, of s "Some (this_task st)"] obtain st' where
    "nxsem_findandfreeholder cfg s (Some (this_task st)) st2 = Some st'"
    "\<forall>p \<in> set (live_holders cfg st' s).
               htcb (holder_at st' p) = Some (this_task st) \<longrightarrow> 0 < sint (counts (holder_at st' p))"
    by blast
  with m show ?thesis
    unfolding nxsem_restore_baseprio_task_def Let_def by (simp del: holder_at.simps)
qed

lemma pool_counts_live:
  assumes pi: "pool_inv cfg st FL L" and N: "0 < CONFIG_SEM_PREALLOCHOLDERS cfg"
  shows "(\<forall>n < CONFIG_SEM_PREALLOCHOLDERS cfg. counts (g_holderalloc st ! n) \<noteq> 0 \<longrightarrow>
             (\<exists>s'. Prealloc n \<in> set (live_holders cfg st s'))) \<and>
         (\<forall>n \<in> set (free_nodes st).
             htcb (g_holderalloc st ! n) = None \<and> counts (g_holderalloc st ! n) = 0)"
proof -
  note I = pool_invD[OF pi]
  have f: "\<forall>n \<in> set (free_nodes st).
               htcb (g_holderalloc st ! n) = None \<and> counts (g_holderalloc st ! n) = 0"
    using I(7) free_nodes_pool[OF pi] by simp
  have l: "\<forall>n < CONFIG_SEM_PREALLOCHOLDERS cfg. counts (g_holderalloc st ! n) \<noteq> 0 \<longrightarrow>
               (\<exists>s'. Prealloc n \<in> set (live_holders cfg st s'))"
  proof (intro allI impI)
    fix n assume n: "n < CONFIG_SEM_PREALLOCHOLDERS cfg" and c: "counts (g_holderalloc st ! n) \<noteq> 0"
    from n I(6) have "n \<in> set FL \<union> (\<Union>s. set (L s))" by auto
    moreover have "n \<notin> set FL" using I(7)[of n] c by auto
    ultimately obtain s' where "n \<in> set (L s')" by auto
    then have "Prealloc n \<in> set (live_holders cfg st s')"
      by (simp add: live_holders_pool[OF pi N])
    then show "\<exists>s'. Prealloc n \<in> set (live_holders cfg st s')" by blast
  qed
  from l f show ?thesis by blast
qed

text \<open>
  C2 (as amended). In every reachable state:

  \<^item> in the pooled regime an entry whose counts are not 0 is live (it is on the list of
    some semaphore, with a thread), and the entries of the free list have no thread and
    counts 0;
  \<^item> nxsem_release_holder returns and frees nothing: the live entries of the semaphore
    are the same, with the same threads, and only the entry of the running thread
    changes, its counts one less when they were positive (so a live entry can have
    counts 0);
  \<^item> nxsem_findandfreeholder returns, leaves no live entry of the thread with counts
    \<open>\<le> 0\<close>, and keeps every live entry of another thread or with positive counts;
  \<^item> nxsem_restore_baseprio_task returns and leaves no live entry of the running
    thread with counts \<open>\<le> 0\<close>.

  Nothing bounds the counts of a live entry from below: \<^verbatim>\<open>counts++\<close> wraps.
\<close>

theorem C2_counts_of_live_and_free_entries:
  assumes "reachable cfg st"
  shows "(0 < CONFIG_SEM_PREALLOCHOLDERS cfg \<longrightarrow>
            (\<forall>n < CONFIG_SEM_PREALLOCHOLDERS cfg. counts (g_holderalloc st ! n) \<noteq> 0 \<longrightarrow>
                 (\<exists>s'. Prealloc n \<in> set (live_holders cfg st s'))) \<and>
            (\<forall>n \<in> set (free_nodes st).
                 htcb (g_holderalloc st ! n) = None \<and> counts (g_holderalloc st ! n) = 0)) \<and>
         (\<exists>st'. nxsem_release_holder cfg s st = Some st' \<and>
            live_holders cfg st' s = live_holders cfg st s \<and>
            (\<forall>p \<in> set (live_holders cfg st s).
               htcb (holder_at st' p) = htcb (holder_at st p) \<and>
               counts (holder_at st' p) =
                 (if htcb (holder_at st p) = Some (this_task st) \<and> 0 < sint (counts (holder_at st p))
                  then counts (holder_at st p) - 1 else counts (holder_at st p)))) \<and>
         (\<exists>st'. nxsem_findandfreeholder cfg s t st = Some st' \<and>
            (\<forall>p \<in> set (live_holders cfg st' s).
               htcb (holder_at st' p) = t \<longrightarrow> 0 < sint (counts (holder_at st' p))) \<and>
            (\<forall>p \<in> set (live_holders cfg st s).
               htcb (holder_at st p) \<noteq> t \<or> 0 < sint (counts (holder_at st p)) \<longrightarrow>
               p \<in> set (live_holders cfg st' s) \<and> htcb (holder_at st' p) = htcb (holder_at st p) \<and>
               counts (holder_at st' p) = counts (holder_at st p))) \<and>
         (\<exists>st'. nxsem_restore_baseprio_task cfg stcb s st = Some st' \<and>
            (\<forall>p \<in> set (live_holders cfg st' s).
               htcb (holder_at st' p) = Some (this_task st) \<longrightarrow> 0 < sint (counts (holder_at st' p))))"
proof -
  note inv = reachable_store_inv[OF assms]
  have a: "0 < CONFIG_SEM_PREALLOCHOLDERS cfg \<longrightarrow>
            (\<forall>n < CONFIG_SEM_PREALLOCHOLDERS cfg. counts (g_holderalloc st ! n) \<noteq> 0 \<longrightarrow>
                 (\<exists>s'. Prealloc n \<in> set (live_holders cfg st s'))) \<and>
            (\<forall>n \<in> set (free_nodes st).
                 htcb (g_holderalloc st ! n) = None \<and> counts (g_holderalloc st ! n) = 0)"
  proof
    assume N: "0 < CONFIG_SEM_PREALLOCHOLDERS cfg"
    with inv obtain FL L where pi: "pool_inv cfg st FL L" by (auto simp: store_inv_def)
    from pool_counts_live[OF pi N] show
      "(\<forall>n < CONFIG_SEM_PREALLOCHOLDERS cfg. counts (g_holderalloc st ! n) \<noteq> 0 \<longrightarrow>
                 (\<exists>s'. Prealloc n \<in> set (live_holders cfg st s'))) \<and>
            (\<forall>n \<in> set (free_nodes st).
                 htcb (g_holderalloc st ! n) = None \<and> counts (g_holderalloc st ! n) = 0)" .
  qed
  from findandfreeholder_post[OF inv, of s t] have c:
    "\<exists>st'. nxsem_findandfreeholder cfg s t st = Some st' \<and>
            (\<forall>p \<in> set (live_holders cfg st' s).
               htcb (holder_at st' p) = t \<longrightarrow> 0 < sint (counts (holder_at st' p))) \<and>
            (\<forall>p \<in> set (live_holders cfg st s).
               htcb (holder_at st p) \<noteq> t \<or> 0 < sint (counts (holder_at st p)) \<longrightarrow>
               p \<in> set (live_holders cfg st' s) \<and> htcb (holder_at st' p) = htcb (holder_at st p) \<and>
               counts (holder_at st' p) = counts (holder_at st p))" by blast
  show ?thesis
    by (intro conjI a release_holder_live[OF inv] c restore_baseprio_task_post[OF inv])
qed

text \<open>
  C2, witness: pooled regime, three nodes, running thread 0. Thread 1 holds semaphore 0
  (node 0) and the running thread took semaphore 1 (node 1); node 2 is free. Releasing
  semaphore 1 leaves node 1 on its list with thread 0 and counts 0, and the restore
  engine run on that state frees it.
\<close>

theorem C2_witness:
  "counts (g_holderalloc (after cfg_pooled3 (booted cfg_pooled3) [Add_holder_tcb 1 0, Add_holder 1]) ! 0) = 1 \<and>
   (\<exists>s'. Prealloc 0 \<in> set (live_holders cfg_pooled3
        (after cfg_pooled3 (booted cfg_pooled3) [Add_holder_tcb 1 0, Add_holder 1]) s')) \<and>
   free_nodes (after cfg_pooled3 (booted cfg_pooled3) [Add_holder_tcb 1 0, Add_holder 1]) = [2] \<and>
   htcb (g_holderalloc (after cfg_pooled3 (booted cfg_pooled3) [Add_holder_tcb 1 0, Add_holder 1]) ! 2) = None \<and>
   counts (g_holderalloc (after cfg_pooled3 (booted cfg_pooled3) [Add_holder_tcb 1 0, Add_holder 1]) ! 2) = 0 \<and>
   live_holders cfg_pooled3 (after cfg_pooled3 (booted cfg_pooled3) [Add_holder_tcb 1 0, Add_holder 1]) 1
     = [Prealloc 1] \<and>
   (case nxsem_release_holder cfg_pooled3 1
           (after cfg_pooled3 (booted cfg_pooled3) [Add_holder_tcb 1 0, Add_holder 1]) of
      None \<Rightarrow> False
    | Some st' \<Rightarrow> live_holders cfg_pooled3 st' 1 = [Prealloc 1] \<and>
                  htcb (holder_at st' (Prealloc 1)) = Some 0 \<and> counts (holder_at st' (Prealloc 1)) = 0) \<and>
   (case nxsem_findandfreeholder cfg_pooled3 1 (Some 0)
           (after cfg_pooled3 (booted cfg_pooled3) [Add_holder_tcb 1 0, Add_holder 1]) of
      None \<Rightarrow> False
    | Some st' \<Rightarrow> Prealloc 1 \<in> set (live_holders cfg_pooled3 st' 1) \<and>
                  htcb (holder_at st' (Prealloc 1)) = Some 0 \<and> counts (holder_at st' (Prealloc 1)) = 1) \<and>
   (case nxsem_restore_baseprio_task cfg_pooled3 None 1
           (after cfg_pooled3 (booted cfg_pooled3) [Add_holder_tcb 1 0, Add_holder 1, Release_holder 1]) of
      None \<Rightarrow> False
    | Some st' \<Rightarrow> live_holders cfg_pooled3 st' 1 = [] \<and> free_nodes st' = [1, 2])"
proof -
  let ?S = "after cfg_pooled3 (booted cfg_pooled3) [Add_holder_tcb 1 0, Add_holder 1]"
  have ok: "runs_ok cfg_pooled3 (booted cfg_pooled3) [Add_holder_tcb 1 0, Add_holder 1]"
    by code_simp
  have r: "reachable cfg_pooled3 ?S" by (rule reachable_after[OF reachable_booted ok])
  have N: "0 < CONFIG_SEM_PREALLOCHOLDERS cfg_pooled3" "(0::nat) < CONFIG_SEM_PREALLOCHOLDERS cfg_pooled3"
    by (simp_all add: cfg_pooled3_def)
  have c0: "counts (g_holderalloc ?S ! 0) = 1" by code_simp
  have f: "free_nodes ?S = [2]" by code_simp
  have l: "live_holders cfg_pooled3 ?S 1 = [Prealloc 1]" by code_simp
  have h: "htcb (holder_at ?S (Prealloc 1)) = Some 0" "counts (holder_at ?S (Prealloc 1)) = 1"
    "this_task ?S = 0" by code_simp+
  have e: "case nxsem_restore_baseprio_task cfg_pooled3 None 1
           (after cfg_pooled3 (booted cfg_pooled3) [Add_holder_tcb 1 0, Add_holder 1, Release_holder 1]) of
      None \<Rightarrow> False
    | Some st' \<Rightarrow> live_holders cfg_pooled3 st' 1 = [] \<and> free_nodes st' = [1, 2]" by code_simp
  note T = C2_counts_of_live_and_free_entries[OF r, of 1 "Some 0" None]
  from T N c0 have t1: "\<exists>s'. Prealloc 0 \<in> set (live_holders cfg_pooled3 ?S s')"
    by (simp add: cfg_pooled3_def)
  from T N f have t2: "htcb (g_holderalloc ?S ! 2) = None \<and> counts (g_holderalloc ?S ! 2) = 0"
    by simp
  from T obtain st1 where s1: "nxsem_release_holder cfg_pooled3 1 ?S = Some st1"
    "live_holders cfg_pooled3 st1 1 = live_holders cfg_pooled3 ?S 1"
    "\<forall>p \<in> set (live_holders cfg_pooled3 ?S 1).
               htcb (holder_at st1 p) = htcb (holder_at ?S p) \<and>
               counts (holder_at st1 p) =
                 (if htcb (holder_at ?S p) = Some (this_task ?S) \<and> 0 < sint (counts (holder_at ?S p))
                  then counts (holder_at ?S p) - 1 else counts (holder_at ?S p))" by blast
  from s1(3) l h have "htcb (holder_at st1 (Prealloc 1)) = Some 0 \<and> counts (holder_at st1 (Prealloc 1)) = 0"
    by (simp del: holder_at.simps)
  with s1(1,2) l have t3: "case nxsem_release_holder cfg_pooled3 1 ?S of
      None \<Rightarrow> False
    | Some st' \<Rightarrow> live_holders cfg_pooled3 st' 1 = [Prealloc 1] \<and>
                  htcb (holder_at st' (Prealloc 1)) = Some 0 \<and> counts (holder_at st' (Prealloc 1)) = 0"
    by (simp del: holder_at.simps)
  from T obtain st2 where s2: "nxsem_findandfreeholder cfg_pooled3 1 (Some 0) ?S = Some st2"
    "\<forall>p \<in> set (live_holders cfg_pooled3 ?S 1).
               htcb (holder_at ?S p) \<noteq> Some 0 \<or> 0 < sint (counts (holder_at ?S p)) \<longrightarrow>
               p \<in> set (live_holders cfg_pooled3 st2 1) \<and> htcb (holder_at st2 p) = htcb (holder_at ?S p) \<and>
               counts (holder_at st2 p) = counts (holder_at ?S p)" by blast
  from s2(2) l h have "Prealloc 1 \<in> set (live_holders cfg_pooled3 st2 1) \<and>
      htcb (holder_at st2 (Prealloc 1)) = Some 0 \<and> counts (holder_at st2 (Prealloc 1)) = 1"
    by (simp del: holder_at.simps)
  with s2(1) have t4: "case nxsem_findandfreeholder cfg_pooled3 1 (Some 0) ?S of
      None \<Rightarrow> False
    | Some st' \<Rightarrow> Prealloc 1 \<in> set (live_holders cfg_pooled3 st' 1) \<and>
                  htcb (holder_at st' (Prealloc 1)) = Some 0 \<and> counts (holder_at st' (Prealloc 1)) = 1"
    by (simp del: holder_at.simps)
  from c0 t1 f t2 l t3 t4 e show ?thesis by (simp only: simp_thms)
qed

text \<open>
  C2, counterexample. Inline regime, running thread 0. After the thread took and
  released semaphore 0, its entry is still in the store with its thread set and counts
  0. After it took and destroyed semaphore 1, the slot has counts 1 and no thread.
\<close>

theorem C2_counterexample:
  "runs_ok cfg_inline (booted cfg_inline) [Add_holder 0, Release_holder 0, Add_holder 1, Destroyholder 1] \<and>
   htcb (holder_at (after cfg_inline (booted cfg_inline) [Add_holder 0, Release_holder 0]) (Builtin 0 0)) = Some 0 \<and>
   counts (holder_at (after cfg_inline (booted cfg_inline) [Add_holder 0, Release_holder 0]) (Builtin 0 0)) = 0 \<and>
   live_holders cfg_inline (after cfg_inline (booted cfg_inline) [Add_holder 0, Release_holder 0]) 0 = [Builtin 0 0] \<and>
   htcb (holder_at (after cfg_inline (booted cfg_inline)
       [Add_holder 0, Release_holder 0, Add_holder 1, Destroyholder 1]) (Builtin 1 0)) = None \<and>
   counts (holder_at (after cfg_inline (booted cfg_inline)
       [Add_holder 0, Release_holder 0, Add_holder 1, Destroyholder 1]) (Builtin 1 0)) = 1"
  by code_simp

lemma pool_live_card:
  assumes pi: "pool_inv cfg st FL L" and N: "0 < CONFIG_SEM_PREALLOCHOLDERS cfg"
  shows "finite {(s, p). p \<in> set (live_holders cfg st s)} \<and>
         card {(s, p). p \<in> set (live_holders cfg st s)} + length FL = CONFIG_SEM_PREALLOCHOLDERS cfg"
proof -
  note I = pool_invD[OF pi]
  let ?A = "{(s, p). p \<in> set (live_holders cfg st s)}"
  let ?U = "\<Union>s. set (L s)"
  have A: "?A = {(s, p). \<exists>n. p = Prealloc n \<and> n \<in> set (L s)}"
    by (auto simp: live_holders_pool[OF pi N])
  have inj: "inj_on snd ?A"
  proof (rule inj_onI)
    fix x y assume x: "x \<in> ?A" and y: "y \<in> ?A" and e: "snd x = snd y"
    obtain s p where xs: "x = (s, p)" by (cases x)
    obtain s' p' where ys: "y = (s', p')" by (cases y)
    from x y xs ys e A obtain n where n: "p = Prealloc n" "n \<in> set (L s)" "n \<in> set (L s')" "p' = p"
      by auto
    have "s = s'"
    proof (rule ccontr)
      assume "s \<noteq> s'"
      from I(5)[OF this] n show False by auto
    qed
    with xs ys n show "x = y" by simp
  qed
  have img: "snd ` ?A = Prealloc ` ?U"
    unfolding A by (auto simp: image_iff) 
  have fU: "finite ?U"
  proof -
    have "?U \<subseteq> {..<CONFIG_SEM_PREALLOCHOLDERS cfg}" using I(6) by blast
    then show ?thesis using finite_subset by blast
  qed
  have fin: "finite ?A"
    by (rule finite_imageD[OF _ inj]) (simp add: img fU)
  have dj: "set FL \<inter> ?U = {}" using I(4) by blast
  have "card ?A = card (snd ` ?A)" using card_image[OF inj] by simp
  also have "\<dots> = card ?U" unfolding img by (rule card_image) (simp add: inj_on_def)
  finally have cA: "card ?A = card ?U" .
  have "card (set FL \<union> ?U) = card (set FL) + card ?U"
    by (rule card_Un_disjoint) (simp_all add: fU dj)
  moreover have "card (set FL \<union> ?U) = CONFIG_SEM_PREALLOCHOLDERS cfg"
    using I(6) by simp
  moreover have "card (set FL) = length FL"
    using chain_distinct[OF I(2)] by (simp add: distinct_card)
  ultimately have "card ?U + length FL = CONFIG_SEM_PREALLOCHOLDERS cfg" by simp
  with cA fin show ?thesis by simp
qed

text \<open>
  C10. Pooled regime. After nxsem_initialize_holders the free list starts at node 0,
  runs through the nodes \<open>0, 1, \<dots>, N - 1\<close> of the array in this order, each once, and
  ends with \<^verbatim>\<open>NULL\<close>. In every state reachable from boot, the live entries of all
  semaphores together with the nodes of the free list are exactly the \<open>N\<close> nodes, so that
  at most \<open>N\<close> entries are live at once.
\<close>

theorem C10_free_list_and_capacity:
  assumes "0 < CONFIG_SEM_PREALLOCHOLDERS cfg"
    and "length (g_holderalloc st0) = CONFIG_SEM_PREALLOCHOLDERS cfg"
    and "reachable cfg st"
  shows "chain (g_holderalloc (nxsem_initialize_holders cfg st0))
               (g_freeholders (nxsem_initialize_holders cfg st0))
               [0..<CONFIG_SEM_PREALLOCHOLDERS cfg] \<and>
         finite {(s, p). p \<in> set (live_holders cfg st s)} \<and>
         card {(s, p). p \<in> set (live_holders cfg st s)} + length (free_nodes st)
           = CONFIG_SEM_PREALLOCHOLDERS cfg \<and>
         card {(s, p). p \<in> set (live_holders cfg st s)} \<le> CONFIG_SEM_PREALLOCHOLDERS cfg"
proof -
  from reachable_store_inv[OF assms(3)] assms(1) obtain FL L where pi: "pool_inv cfg st FL L"
    by (auto simp: store_inv_def)
  from pool_live_card[OF pi assms(1)] free_nodes_pool[OF pi] initialize_holders_chain[OF assms(1,2)]
  show ?thesis by simp
qed

text \<open>
  C10, witness: two nodes; after boot, thread 1 takes semaphores 0 and 1 and thread 2
  asks for semaphore 0 when no node is left.
\<close>

theorem C10_witness:
  "chain (g_holderalloc (nxsem_initialize_holders cfg_pooled (boot cfg_pooled)))
         (g_freeholders (nxsem_initialize_holders cfg_pooled (boot cfg_pooled))) [0..<2] \<and>
   card {(s, p). p \<in> set (live_holders cfg_pooled
       (after cfg_pooled (booted cfg_pooled) [Add_holder_tcb 1 0, Add_holder_tcb 1 1, Add_holder_tcb 2 0]) s)}
     + length (free_nodes
       (after cfg_pooled (booted cfg_pooled) [Add_holder_tcb 1 0, Add_holder_tcb 1 1, Add_holder_tcb 2 0])) = 2 \<and>
   free_nodes
       (after cfg_pooled (booted cfg_pooled) [Add_holder_tcb 1 0, Add_holder_tcb 1 1, Add_holder_tcb 2 0]) = []"
proof -
  let ?xs = "[Add_holder_tcb 1 0, Add_holder_tcb 1 1, Add_holder_tcb 2 0]"
  let ?S = "after cfg_pooled (booted cfg_pooled) ?xs"
  have ok: "runs_ok cfg_pooled (booted cfg_pooled) ?xs" by code_simp
  have r: "reachable cfg_pooled ?S" by (rule reachable_after[OF reachable_booted ok])
  have N: "0 < CONFIG_SEM_PREALLOCHOLDERS cfg_pooled" by code_simp
  have N2: "CONFIG_SEM_PREALLOCHOLDERS cfg_pooled = 2" by code_simp
  have len: "length (g_holderalloc (boot cfg_pooled)) = CONFIG_SEM_PREALLOCHOLDERS cfg_pooled"
    by code_simp
  have f: "free_nodes ?S = []" by code_simp
  from C10_free_list_and_capacity[OF N len r] f show ?thesis by (simp add: N2)
qed

subsection \<open>nxsem_destroyholder\<close>











subsection \<open>The ledger loops\<close>

lemma mset_take_swap_remove:
  assumes i: "i < n" and n: "n \<le> length xs"
  shows "mset (take (n - 1) (xs[i := xs ! (n - 1)])) = mset (take n xs) - {#xs ! i#}"
proof -
  have t: "take n xs = take (n - 1) xs @ [xs ! (n - 1)]"
    using i n take_Suc_conv_app_nth[of "n - 1" xs] by simp
  show ?thesis
  proof (cases "i = n - 1")
    case True
    then have "xs[i := xs ! (n - 1)] = xs" by simp
    then show ?thesis unfolding t using True by simp
  next
    case False
    with i have il: "i < n - 1" by simp
    then have il': "i < length (take (n - 1) xs)" using n by simp
    have "take (n - 1) (xs[i := xs ! (n - 1)]) = (take (n - 1) xs)[i := xs ! (n - 1)]"
      by (simp add: take_update_swap)
    then have "mset (take (n - 1) (xs[i := xs ! (n - 1)])) =
        add_mset (xs ! (n - 1)) (mset (take (n - 1) xs) - {#take (n - 1) xs ! i#})"
      using mset_update[OF il'] by simp
    moreover have "take (n - 1) xs ! i = xs ! i" using il by simp
    moreover have "xs ! i \<in># mset (take (n - 1) xs)"
      using il il' by (metis nth_mem calculation(2) set_mset_mset)
    ultimately show ?thesis unfolding t by simp
  qed
qed

lemma ledger_remove_boost:
  assumes "i < nsem_boosts c" "nsem_boosts c \<le> length (sem_boosts c)"
  shows "mset (ledger (remove_boost i c)) = mset (ledger c) - {#sem_boosts c ! i#}"
  using mset_take_swap_remove[OF assms] by (simp add: ledger_def remove_boost_def)

lemma remove_boost_fields [simp]:
  "sched_priority (remove_boost i c) = sched_priority c"
  "base_priority (remove_boost i c) = base_priority c"
  "length (sem_boosts (remove_boost i c)) = length (sem_boosts c)"
  "nsem_boosts (remove_boost i c) = nsem_boosts c - 1"
  by (simp_all add: remove_boost_def)

lemma discard_boosts_fields:
  "sched_priority (discard_boosts s i c) = sched_priority c \<and>
   base_priority (discard_boosts s i c) = base_priority c \<and>
   length (sem_boosts (discard_boosts s i c)) = length (sem_boosts c) \<and>
   nsem_boosts (discard_boosts s i c) \<le> nsem_boosts c"
proof (induction s i c rule: discard_boosts.induct)
  case (1 s i c)
  show ?case
  proof (cases "i < nsem_boosts c")
    case False
    then show ?thesis by (simp add: discard_boosts.simps[of s i c])
  next
    case True
    show ?thesis
    proof (cases "boost_sem (sem_boosts c ! i) = s")
      case m: True
      from 1(1)[OF True m] True m show ?thesis
        apply (simp add: discard_boosts.simps[of s i c])
        apply linarith
        done
    next
      case m: False
      from 1(2)[OF True m] True m show ?thesis
        by (simp add: discard_boosts.simps[of s i c])
    qed
  qed
qed

lemma ledger_discard_boosts:
  assumes "nsem_boosts c \<le> length (sem_boosts c)" "i \<le> nsem_boosts c"
    and "\<forall>j<i. boost_sem (sem_boosts c ! j) \<noteq> s"
  shows "mset (ledger (discard_boosts s i c)) = filter_mset (\<lambda>r. boost_sem r \<noteq> s) (mset (ledger c))"
  using assms
proof (induction s i c rule: discard_boosts.induct)
  case (1 s i c)
  let ?n = "nsem_boosts c" and ?xs = "sem_boosts c"
  show ?case
  proof (cases "i < ?n")
    case False
    with 1(4) have e: "i = ?n" by simp
    have "\<forall>r \<in># mset (ledger c). boost_sem r \<noteq> s"
    proof
      fix r assume "r \<in># mset (ledger c)"
      then have "r \<in> set (take ?n ?xs)" by (simp add: ledger_def)
      then obtain j where "j < ?n" "r = ?xs ! j" using 1(3)
        by (auto simp: in_set_conv_nth)
      with 1(5) e show "boost_sem r \<noteq> s" by simp
    qed
    then have "filter_mset (\<lambda>r. boost_sem r \<noteq> s) (mset (ledger c)) = mset (ledger c)"
      by (simp add: filter_mset_eq_conv)
    with False show ?thesis by (simp add: discard_boosts.simps[of s i c])
  next
    case True
    show ?thesis
    proof (cases "boost_sem (?xs ! i) = s")
      case m: True
      define c' where "c' = c\<lparr>sem_boosts := ?xs[i := ?xs ! (?n - 1)], nsem_boosts := ?n - 1\<rparr>"
      have a1: "nsem_boosts c' \<le> length (sem_boosts c')" using 1(3) by (simp add: c'_def)
      have a2: "i \<le> nsem_boosts c'" using True by (simp add: c'_def)
      have a3: "\<forall>j<i. boost_sem (sem_boosts c' ! j) \<noteq> s" using 1(5) by (simp add: c'_def)
      from 1(1)[OF True m, folded c'_def, OF a1 a2 a3]
      have ih: "mset (ledger (discard_boosts s i c')) =
                filter_mset (\<lambda>r. boost_sem r \<noteq> s) (mset (ledger c'))" .
      have l: "mset (ledger c') = mset (ledger c) - {#?xs ! i#}"
        using mset_take_swap_remove[OF True 1(3)] by (simp add: ledger_def c'_def)
      have "filter_mset (\<lambda>r. boost_sem r \<noteq> s) (mset (ledger c) - {#?xs ! i#}) =
            filter_mset (\<lambda>r. boost_sem r \<noteq> s) (mset (ledger c))"
        using m by simp
      with ih l True m show ?thesis
        by (simp add: discard_boosts.simps[of s i c] c'_def)
    next
      case m: False
      have a3: "\<forall>j<i + 1. boost_sem (?xs ! j) \<noteq> s"
        using 1(5) m by (auto simp: less_Suc_eq)
      from 1(2)[OF True m 1(3) _ a3] True m show ?thesis
        by (simp add: discard_boosts.simps[of s i c])
    qed
  qed
qed

text \<open>The search of nxsem_restoreholderprio for the highest boost of the semaphore.\<close>

lemma max_boost_fold:
  fixes xs :: "semboost_s list"
  defines "F \<equiv> (\<lambda>s (xs :: semboost_s list) i (a :: int \<times> prio).
             case a of (max_boost_index, max_boost_priority) \<Rightarrow>
             if boost_sem (xs ! i) = s \<and> max_boost_priority < priority (xs ! i)
             then (int i, priority (xs ! i))
             else (max_boost_index, max_boost_priority))"
  shows "case fold (F s xs) [0..<k] (- 1, 0) of (idx, p) \<Rightarrow>
           (idx = - 1 \<and> (\<forall>j<k. boost_sem (xs ! j) = s \<longrightarrow> priority (xs ! j) = 0)) \<or>
           (0 \<le> idx \<and> nat idx < k \<and> boost_sem (xs ! nat idx) = s \<and> priority (xs ! nat idx) = p \<and>
            0 < p \<and> (\<forall>j<k. boost_sem (xs ! j) = s \<longrightarrow> priority (xs ! j) \<le> p))"
proof (induction k)
  case 0
  show ?case by simp
next
  case (Suc k)
  obtain idx p where r: "fold (F s xs) [0..<k] (- 1, 0) = (idx, p)" by (cases "fold (F s xs) [0..<k] (- 1, 0)")
  have st: "fold (F s xs) [0..<Suc k] (- 1, 0) = F s xs k (idx, p)" by (simp add: r)
  from Suc r have ih:
    "(idx = - 1 \<and> (\<forall>j<k. boost_sem (xs ! j) = s \<longrightarrow> priority (xs ! j) = 0)) \<or>
     (0 \<le> idx \<and> nat idx < k \<and> boost_sem (xs ! nat idx) = s \<and> priority (xs ! nat idx) = p \<and>
      0 < p \<and> (\<forall>j<k. boost_sem (xs ! j) = s \<longrightarrow> priority (xs ! j) \<le> p))" by simp
  have p0: "idx = - 1 \<Longrightarrow> p = 0"
  proof -
    have "case fold (F s xs) [0..<k] (- 1, 0) of (idx, p) \<Rightarrow> idx = - 1 \<longrightarrow> p = 0"
      by (induction k) (auto simp: F_def split: prod.splits)
    then show "idx = - 1 \<Longrightarrow> p = 0" using r by simp
  qed
  show ?case
  proof (cases "boost_sem (xs ! k) = s \<and> p < priority (xs ! k)")
    case True
    then have e: "F s xs k (idx, p) = (int k, priority (xs ! k))" by (simp add: F_def)
    have "\<forall>j<Suc k. boost_sem (xs ! j) = s \<longrightarrow> priority (xs ! j) \<le> priority (xs ! k)"
    proof (intro allI impI)
      fix j assume j: "j < Suc k" and m: "boost_sem (xs ! j) = s"
      show "priority (xs ! j) \<le> priority (xs ! k)"
      proof (cases "j = k")
        case True then show ?thesis by simp
      next
        case False
        with j have jk: "j < k" by simp
        from ih show ?thesis
        proof
          assume "idx = - 1 \<and> (\<forall>j<k. boost_sem (xs ! j) = s \<longrightarrow> priority (xs ! j) = 0)"
          with jk m have "priority (xs ! j) = 0" by simp
          then show ?thesis by simp
        next
          assume "0 \<le> idx \<and> nat idx < k \<and> boost_sem (xs ! nat idx) = s \<and> priority (xs ! nat idx) = p \<and>
              0 < p \<and> (\<forall>j<k. boost_sem (xs ! j) = s \<longrightarrow> priority (xs ! j) \<le> p)"
          with jk m have "priority (xs ! j) \<le> p" by simp
          with True show ?thesis by (metis order.strict_implies_order order.trans)
        qed
      qed
    qed
    moreover have "0 < priority (xs ! k)" using True by (simp add: word_gt_0) (metis word_not_simps(1))
    ultimately show ?thesis unfolding st e using True by simp
  next
    case False
    then have e: "F s xs k (idx, p) = (idx, p)" by (auto simp: F_def)
    from ih show ?thesis
    proof
      assume a: "idx = - 1 \<and> (\<forall>j<k. boost_sem (xs ! j) = s \<longrightarrow> priority (xs ! j) = 0)"
      with p0 have "p = 0" by simp
      with False have "boost_sem (xs ! k) = s \<longrightarrow> priority (xs ! k) = 0"
        by (simp add: word_gt_0)
      with a show ?thesis unfolding st e by (auto simp: less_Suc_eq)
    next
      assume a: "0 \<le> idx \<and> nat idx < k \<and> boost_sem (xs ! nat idx) = s \<and> priority (xs ! nat idx) = p \<and>
              0 < p \<and> (\<forall>j<k. boost_sem (xs ! j) = s \<longrightarrow> priority (xs ! j) \<le> p)"
      from False have "boost_sem (xs ! k) = s \<longrightarrow> priority (xs ! k) \<le> p" by auto
      with a show ?thesis unfolding st e by (auto simp: less_Suc_eq)
    qed
  qed
qed

lemma max_boost_spec:
  "case max_boost s c of (idx, p) \<Rightarrow>
     (idx = - 1 \<and> (\<forall>j<nsem_boosts c. boost_sem (sem_boosts c ! j) = s \<longrightarrow> priority (sem_boosts c ! j) = 0)) \<or>
     (0 \<le> idx \<and> nat idx < nsem_boosts c \<and> boost_sem (sem_boosts c ! nat idx) = s \<and>
      priority (sem_boosts c ! nat idx) = p \<and> 0 < p \<and>
      (\<forall>j<nsem_boosts c. boost_sem (sem_boosts c ! j) = s \<longrightarrow> priority (sem_boosts c ! j) \<le> p))"
  using max_boost_fold[where s = s and xs = "sem_boosts c" and k = "nsem_boosts c"] unfolding max_boost_def
  by (simp add: case_prod_unfold)

lemma new_priority_fold:
  assumes "k \<le> length xs"
  shows "fold (\<lambda>i p. if priority (xs ! i) > p then priority (xs ! i) else p) [0..<k] (b :: prio) =
         Max (insert b (priority ` set (take k xs)))"
  using assms
proof (induction k)
  case 0
  show ?case by simp
next
  case (Suc k)
  then have k: "k < length xs" by simp
  define M where "M = Max (insert b (priority ` set (take k xs)))"
  have ih: "fold (\<lambda>i p. if priority (xs ! i) > p then priority (xs ! i) else p) [0..<k] b = M"
    using Suc by (simp add: M_def)
  have t: "take (Suc k) xs = take k xs @ [xs ! k]" using take_Suc_conv_app_nth[OF k] .
  have "Max (insert (priority (xs ! k)) (insert b (priority ` set (take k xs)))) =
        max (priority (xs ! k)) (Max (insert b (priority ` set (take k xs))))"
    by (rule Max_insert) simp_all
  moreover have "insert b (priority ` set (take (Suc k) xs)) =
        insert (priority (xs ! k)) (insert b (priority ` set (take k xs)))"
    unfolding t by auto
  ultimately have m: "Max (insert b (priority ` set (take (Suc k) xs))) = max (priority (xs ! k)) M"
    by (simp add: M_def)
  have "fold (\<lambda>i p. if priority (xs ! i) > p then priority (xs ! i) else p) [0..<Suc k] b =
        (if priority (xs ! k) > M then priority (xs ! k) else M)"
    by (simp add: ih)
  also have "\<dots> = max (priority (xs ! k)) M" by (auto simp: max_def)
  finally show ?case unfolding m .
qed

lemma new_priority_Max:
  assumes "nsem_boosts c \<le> length (sem_boosts c)"
  shows "new_priority c = Max (insert (base_priority c) (priority ` set (ledger c)))"
  unfolding new_priority_def ledger_def using new_priority_fold[OF assms] .

text \<open>The ledger of the holder thread after the edit of nxsem_restoreholderprio.\<close>

lemma restoreholderprio_nested:
  assumes f: "nxsem_findholder cfg s (Some h) st = Some ph"
    and N: "0 < CONFIG_SEM_NNESTPRIO cfg"
    and v: "nxsched_verify_tcb st (Some h)"
    and b: "sched_priority (tcbs st h) \<noteq> base_priority (tcbs st h)"
    and c1: "c1 = (if (case ph of None \<Rightarrow> True | Some p \<Rightarrow> counts (holder_at st p) = 0)
                   then discard_boosts s 0 (tcbs st h)
                   else (case max_boost s (tcbs st h) of
                           (idx, p) \<Rightarrow> if 0 \<le> idx then remove_boost (nat idx) (tcbs st h)
                                       else tcbs st h))"
    and sp: "sched_priority c1 = sched_priority (tcbs st h)"
  shows "\<exists>st'. nxsem_restoreholderprio cfg (Some h) s arg st = Some (0, st') \<and>
           tcbs st' = (tcbs st)(h := c1\<lparr>sched_priority := new_priority c1\<rparr>) \<and>
           trace st' = (if new_priority c1 \<noteq> sched_priority (tcbs st h)
                        then trace st @ [Set_priority h (new_priority c1)] else trace st) \<and>
           same_store st st' \<and> active st' = active st \<and> running st' = running st"
proof -
  define st1 where "st1 = (if (case ph of None \<Rightarrow> True | Some p \<Rightarrow> counts (holder_at st p) = 0)
                             then tcb_upd h (discard_boosts s 0) st
                             else
                               (case max_boost s (tcbs st h) of
                                  (max_boost_index, max_boost_priority) \<Rightarrow>
                                    if max_boost_index \<ge> 0
                                    then tcb_upd h (remove_boost (nat max_boost_index)) st
                                    else st))"
  have t1: "tcbs st1 = (tcbs st)(h := c1)"
    unfolding st1_def c1 by (auto simp: tcb_upd_def split: prod.splits)
  have o1: "same_store st st1" "trace st1 = trace st" "active st1 = active st" "running st1 = running st"
    unfolding st1_def by (auto simp: tcb_upd_def same_store_def split: prod.splits)
  have r: "nxsem_restoreholderprio cfg (Some h) s arg st =
       (if new_priority (tcbs st1 h) \<noteq> sched_priority (tcbs st1 h)
        then Some (0, nxsched_set_priority h (new_priority (tcbs st1 h)) st1)
        else Some (0, st1))"
    using f N v b unfolding nxsem_restoreholderprio_def st1_def Let_def
    by (simp del: holder_at.simps)
  have h1: "tcbs st1 h = c1" using t1 by simp
  show ?thesis
  proof (cases "new_priority c1 \<noteq> sched_priority c1")
    case True
    let ?st' = "nxsched_set_priority h (new_priority c1) st1"
    have "tcbs ?st' = (tcbs st)(h := c1\<lparr>sched_priority := new_priority c1\<rparr>)"
      using t1 by (simp add: nxsched_set_priority_def log_event_def tcb_upd_def)
    moreover have "trace ?st' = trace st @ [Set_priority h (new_priority c1)]"
      using o1 by (simp add: nxsched_set_priority_def log_event_def tcb_upd_def)
    moreover have "same_store st ?st'" "active ?st' = active st" "running ?st' = running st"
      using o1 by (simp_all add: nxsched_set_priority_def log_event_def tcb_upd_def same_store_def)
    ultimately show ?thesis using r h1 True sp by simp
  next
    case False
    then have e: "c1\<lparr>sched_priority := new_priority c1\<rparr> = c1" by simp
    from False r h1 t1 o1 sp show ?thesis unfolding e by simp
  qed
qed

lemma ledger_edit:
  assumes ok: "ledger_ok cfg c"
    and c1: "c1 = (if held0
                   then discard_boosts s 0 c
                   else (case max_boost s c of
                           (idx, p) \<Rightarrow> if 0 \<le> idx then remove_boost (nat idx) c else c))"
  shows "mset (ledger c1) =
           (if held0 then filter_mset (\<lambda>r. boost_sem r \<noteq> s) (mset (ledger c))
            else if \<exists>r \<in> set (ledger c). boost_sem r = s
            then mset (ledger c) -
                   {#\<lparr>boost_sem = s,
                      priority = Max (priority ` {r \<in> set (ledger c). boost_sem r = s})\<rparr>#}
            else mset (ledger c))"
    and "(\<exists>r \<in> set (ledger c). boost_sem r = s) \<longrightarrow>
           \<lparr>boost_sem = s, priority = Max (priority ` {r \<in> set (ledger c). boost_sem r = s})\<rparr>
             \<in> set (ledger c)"
    and "sched_priority c1 = sched_priority c" and "base_priority c1 = base_priority c"
    and "ledger_ok cfg c1"
proof -
  let ?xs = "sem_boosts c" and ?n = "nsem_boosts c"
  from ok have len: "?n \<le> length ?xs" and pos: "\<And>r. r \<in> set (ledger c) \<Longrightarrow> 0 < priority r"
    and l: "length ?xs = CONFIG_SEM_NNESTPRIO cfg" "?n \<le> CONFIG_SEM_NNESTPRIO cfg"
    by (simp_all add: ledger_ok_def)
  have nth: "\<And>j. j < ?n \<Longrightarrow> ?xs ! j \<in> set (ledger c)"
    using len by (auto simp: ledger_def in_set_conv_nth)
  have mem: "\<And>r. r \<in> set (ledger c) \<Longrightarrow> \<exists>j<?n. r = ?xs ! j"
    using len by (auto simp: ledger_def in_set_conv_nth)
  let ?A = "priority ` {r \<in> set (ledger c). boost_sem r = s}"
  have finA: "finite ?A" by simp
  have mx: "(\<exists>r \<in> set (ledger c). boost_sem r = s) \<longrightarrow>
           \<lparr>boost_sem = s, priority = Max ?A\<rparr> \<in> set (ledger c)"
  proof
    assume "\<exists>r \<in> set (ledger c). boost_sem r = s"
    then have "?A \<noteq> {}" by auto
    from Max_in[OF finA this] obtain r where r: "r \<in> set (ledger c)" "boost_sem r = s" "priority r = Max ?A"
      by auto
    then have "r = \<lparr>boost_sem = s, priority = Max ?A\<rparr>" by simp
    with r(1) show "\<lparr>boost_sem = s, priority = Max ?A\<rparr> \<in> set (ledger c)" by simp
  qed
  show "(\<exists>r \<in> set (ledger c). boost_sem r = s) \<longrightarrow>
           \<lparr>boost_sem = s, priority = Max ?A\<rparr> \<in> set (ledger c)" by (rule mx)
  have main: "mset (ledger c1) =
           (if held0 then filter_mset (\<lambda>r. boost_sem r \<noteq> s) (mset (ledger c))
            else if \<exists>r \<in> set (ledger c). boost_sem r = s
            then mset (ledger c) - {#\<lparr>boost_sem = s, priority = Max ?A\<rparr>#}
            else mset (ledger c)) \<and>
        sched_priority c1 = sched_priority c \<and> base_priority c1 = base_priority c \<and>
        length (sem_boosts c1) = length ?xs \<and> nsem_boosts c1 \<le> ?n"
  proof (cases held0)
    case True
    then have e: "c1 = discard_boosts s 0 c" using c1 by simp
    from ledger_discard_boosts[OF len, where i = 0 and s = s] discard_boosts_fields[where s = s and i = 0 and c = c] True
    show ?thesis unfolding e by simp
  next
    case False
    obtain idx p where m: "max_boost s c = (idx, p)" by (cases "max_boost s c")
    from max_boost_spec[where s = s and c = c] m have sp:
      "(idx = - 1 \<and> (\<forall>j<?n. boost_sem (?xs ! j) = s \<longrightarrow> priority (?xs ! j) = 0)) \<or>
       (0 \<le> idx \<and> nat idx < ?n \<and> boost_sem (?xs ! nat idx) = s \<and>
        priority (?xs ! nat idx) = p \<and> 0 < p \<and>
        (\<forall>j<?n. boost_sem (?xs ! j) = s \<longrightarrow> priority (?xs ! j) \<le> p))" by simp
    from sp show ?thesis
    proof
      assume a: "idx = - 1 \<and> (\<forall>j<?n. boost_sem (?xs ! j) = s \<longrightarrow> priority (?xs ! j) = 0)"
      then have e: "c1 = c" using c1 False m by simp
      have "\<not> (\<exists>r \<in> set (ledger c). boost_sem r = s)"
      proof
        assume "\<exists>r \<in> set (ledger c). boost_sem r = s"
        then obtain r where r: "r \<in> set (ledger c)" "boost_sem r = s" by blast
        from mem[OF r(1)] obtain j where j: "j < ?n" "r = ?xs ! j" by blast
        with a r(2) have "priority r = 0" by simp
        with pos[OF r(1)] show False by simp
      qed
      with False e show ?thesis by simp
    next
      assume a: "0 \<le> idx \<and> nat idx < ?n \<and> boost_sem (?xs ! nat idx) = s \<and>
        priority (?xs ! nat idx) = p \<and> 0 < p \<and>
        (\<forall>j<?n. boost_sem (?xs ! j) = s \<longrightarrow> priority (?xs ! j) \<le> p)"
      then have e: "c1 = remove_boost (nat idx) c" using c1 False m by simp
      have i: "nat idx < ?n" using a by simp
      have rin: "?xs ! nat idx \<in> set (ledger c)" using nth[OF i] .
      have ex: "\<exists>r \<in> set (ledger c). boost_sem r = s" using rin a by blast
      have "Max ?A = p"
      proof (rule Max_eqI[OF finA])
        fix y assume "y \<in> ?A"
        then obtain r where r: "r \<in> set (ledger c)" "boost_sem r = s" "y = priority r" by auto
        from mem[OF r(1)] obtain j where "j < ?n" "r = ?xs ! j" by blast
        with a r show "y \<le> p" by simp
      next
        show "p \<in> ?A" using rin a by (auto simp: image_iff)
      qed
      then have "?xs ! nat idx = \<lparr>boost_sem = s, priority = Max ?A\<rparr>" using a by simp
      with ledger_remove_boost[OF i len] False ex show ?thesis unfolding e by simp
    qed
  qed
  from main show "mset (ledger c1) =
           (if held0 then filter_mset (\<lambda>r. boost_sem r \<noteq> s) (mset (ledger c))
            else if \<exists>r \<in> set (ledger c). boost_sem r = s
            then mset (ledger c) - {#\<lparr>boost_sem = s, priority = Max ?A\<rparr>#}
            else mset (ledger c))" by simp
  from main show "sched_priority c1 = sched_priority c" "base_priority c1 = base_priority c"
    by simp_all
  have sub: "set (ledger c1) \<subseteq> set (ledger c)"
  proof -
    have "mset (ledger c1) \<subseteq># mset (ledger c)"
      using main by (auto split: if_splits)
    then show ?thesis by (metis set_mset_mono set_mset_mset)
  qed
  with main l pos show "ledger_ok cfg c1" by (auto simp: ledger_ok_def)
qed

subsection \<open>The entry points keep the ledgers well formed\<close>

lemma ledgers_ok_tcbs: "tcbs st' = tcbs st \<Longrightarrow> ledgers_ok cfg st' = ledgers_ok cfg st"
  by (simp add: ledgers_ok_def)

lemma ledgers_ok_store_only: "store_only st st' \<Longrightarrow> ledgers_ok cfg st \<Longrightarrow> ledgers_ok cfg st'"
  by (simp add: ledgers_ok_def store_only_def)

lemma ledger_ok_sched [simp]: "ledger_ok cfg (c\<lparr>sched_priority := p\<rparr>) = ledger_ok cfg c"
  by (simp add: ledger_ok_def ledger_def)

lemma ledgers_ok_log [simp]: "ledgers_ok cfg (log_event e st) = ledgers_ok cfg st"
  by (simp add: ledgers_ok_def log_event_def)

lemma ledgers_ok_set_priority [simp]:
  "ledgers_ok cfg (nxsched_set_priority t p st) = ledgers_ok cfg st"
  by (auto simp: ledgers_ok_def nxsched_set_priority_def log_event_def tcb_upd_def)

lemma ledgers_ok_reprioritize [simp]:
  "ledgers_ok cfg (nxsched_reprioritize t p st) = ledgers_ok cfg st"
  by (auto simp: ledgers_ok_def nxsched_reprioritize_def log_event_def tcb_upd_def)

lemma ledgers_ok_freeholder:
  "nxsem_freeholder cfg s p st = Some st' \<Longrightarrow> ledgers_ok cfg st \<Longrightarrow> ledgers_ok cfg st'"
  using freeholder_store_only ledgers_ok_store_only by blast

lemma ledger_ok_append:
  assumes ok: "ledger_ok cfg c" and n: "nsem_boosts c < CONFIG_SEM_NNESTPRIO cfg" and p: "0 < priority r"
    and c': "nsem_boosts c' = nsem_boosts c + 1" "sem_boosts c' = (sem_boosts c)[nsem_boosts c := r]"
  shows "ledger_ok cfg c'"
proof -
  let ?n = "nsem_boosts c" and ?xs = "sem_boosts c"
  from ok have len: "length ?xs = CONFIG_SEM_NNESTPRIO cfg"
    and pos: "\<forall>r \<in> set (take ?n ?xs). 0 < priority r"
    by (simp_all add: ledger_ok_def ledger_def)
  have nl: "?n < length ?xs" using n len by simp
  have "take (?n + 1) (?xs[?n := r]) = take ?n ?xs @ [r]"
    using nl by (simp add: take_Suc_conv_app_nth)
  then show ?thesis using len n pos p c' by (simp add: ledger_ok_def ledger_def)
qed

lemma ledgers_ok_boost_record:
  assumes ok: "ledgers_ok cfg st" and n: "nsem_boosts (tcbs st h) < CONFIG_SEM_NNESTPRIO cfg"
    and q: "sched_priority (tcbs st rtcb) > base_priority (tcbs st h)"
    and st1: "st1 = tcb_upd h (\<lambda>c. c\<lparr>nsem_boosts := nsem_boosts c + 1\<rparr>) st"
    and st2: "st2 = tcb_upd h (\<lambda>c. c\<lparr>sem_boosts :=
                 (sem_boosts c)[nsem_boosts (tcbs st h) := (sem_boosts c ! nsem_boosts (tcbs st h))\<lparr>boost_sem := s\<rparr>]\<rparr>) st1"
    and st3: "st3 = tcb_upd h (\<lambda>c. c\<lparr>sem_boosts :=
                 (sem_boosts c)[nsem_boosts (tcbs st h) := (sem_boosts c ! nsem_boosts (tcbs st h))
                    \<lparr>priority := sched_priority (tcbs st2 rtcb)\<rparr>]\<rparr>) st2"
  shows "ledgers_ok cfg st3"
proof -
  define c where "c = tcbs st h"
  have okc: "ledger_ok cfg c" using ok by (simp add: ledgers_ok_def c_def)
  then have len: "nsem_boosts c < length (sem_boosts c)" using n by (simp add: ledger_ok_def c_def)
  have sp: "sched_priority (tcbs st2 rtcb) = sched_priority (tcbs st rtcb)"
    unfolding st2 st1 by (simp add: tcb_upd_def)
  define r where "r = (sem_boosts c ! nsem_boosts c)\<lparr>boost_sem := s, priority := sched_priority (tcbs st rtcb)\<rparr>"
  have q0: "0 < priority r" using q unfolding r_def
    by simp (metis word_gt_0 word_not_simps(1))
  have oth: "\<And>t. t \<noteq> h \<Longrightarrow> tcbs st3 t = tcbs st t"
    unfolding st3 st2 st1 by (simp add: tcb_upd_def)
  have n3: "nsem_boosts (tcbs st3 h) = nsem_boosts c + 1"
    unfolding st3 st2 st1 by (simp add: tcb_upd_def c_def)
  have s3: "sem_boosts (tcbs st3 h) = (sem_boosts c)[nsem_boosts c := r]"
    unfolding st3 sp unfolding st2 st1 using len by (simp add: tcb_upd_def c_def r_def)
  have "ledger_ok cfg (tcbs st3 h)"
    using ledger_ok_append[OF okc _ q0 n3 s3] n by (simp add: c_def)
  with oth ok show ?thesis unfolding ledgers_ok_def by metis
qed

lemma ledgers_ok_boostholderprio:
  assumes r: "nxsem_boostholderprio cfg p s arg st = Some (r, st')" and ok: "ledgers_ok cfg st"
  shows "ledgers_ok cfg st'"
proof (cases "nxsched_verify_tcb st (htcb (holder_at st p))")
  case False
  with r have "nxsem_freeholder cfg s p (log_event (Swarn_stale_handle (htcb (holder_at st p))) st) = Some st'"
    by (auto simp: nxsem_boostholderprio_def Let_def split: option.splits simp del: holder_at.simps)
  from ledgers_ok_freeholder[OF this] ok show ?thesis by simp
next
  case True
  then obtain h where h: "htcb (holder_at st p) = Some h"
    by (auto simp: nxsched_verify_tcb_def split: option.splits)
  show ?thesis
  proof (cases arg)
    case None
    with r True h ok show ?thesis
      by (simp add: nxsem_boostholderprio_def Let_def del: holder_at.simps)
  next
    case (Some rtcb)
    show ?thesis
    proof (cases "0 < CONFIG_SEM_NNESTPRIO cfg")
      case False
      with r True h Some ok show ?thesis
        by (auto simp: nxsem_boostholderprio_def Let_def split: if_splits simp del: holder_at.simps)
    next
      case N: True
      show ?thesis
      proof (cases "sched_priority (tcbs st rtcb) > base_priority (tcbs st h)")
        case False
        with r True h Some ok N show ?thesis
          by (simp add: nxsem_boostholderprio_def Let_def del: holder_at.simps)
      next
        case A: True
        show ?thesis
        proof (cases "nsem_boosts (tcbs st h) < CONFIG_SEM_NNESTPRIO cfg")
          case False
          with r True h Some ok N A show ?thesis
            by (auto simp: nxsem_boostholderprio_def Let_def simp del: holder_at.simps)
        next
          case B: True
          define st1 where "st1 = tcb_upd h (\<lambda>c. c\<lparr>nsem_boosts := nsem_boosts c + 1\<rparr>) st"
          define st2 where "st2 = tcb_upd h (\<lambda>c. c\<lparr>sem_boosts :=
                 (sem_boosts c)[nsem_boosts (tcbs st h) := (sem_boosts c ! nsem_boosts (tcbs st h))\<lparr>boost_sem := s\<rparr>]\<rparr>) st1"
          define st3 where "st3 = tcb_upd h (\<lambda>c. c\<lparr>sem_boosts :=
                 (sem_boosts c)[nsem_boosts (tcbs st h) := (sem_boosts c ! nsem_boosts (tcbs st h))
                    \<lparr>priority := sched_priority (tcbs st2 rtcb)\<rparr>]\<rparr>) st2"
          note ok3 = ledgers_ok_boost_record[OF ok B A st1_def st2_def st3_def]
          have "nxsem_boostholderprio cfg p s arg st =
                (if priority (sem_boosts (tcbs st3 h) ! nsem_boosts (tcbs st h)) > sched_priority (tcbs st3 h)
                 then Some (0, nxsched_set_priority h (priority (sem_boosts (tcbs st3 h) ! nsem_boosts (tcbs st h))) st3)
                 else Some (0, st3))"
            using True h Some N A B
            unfolding nxsem_boostholderprio_def Let_def st3_def st2_def st1_def
            by (simp del: holder_at.simps)
          with r have "st' = st3 \<or> (\<exists>bp. st' = nxsched_set_priority h bp st3)"
            by (auto split: if_splits)
          with ok3 show ?thesis by auto
        qed
      qed
    qed
  qed
qed

lemma ledgers_ok_restoreholderprio:
  assumes r: "nxsem_restoreholderprio cfg ht s arg st = Some (r, st')" and ok: "ledgers_ok cfg st"
  shows "ledgers_ok cfg st'"
proof -
  from r obtain ph where f: "nxsem_findholder cfg s ht st = Some ph"
    by (auto simp: nxsem_restoreholderprio_def split: option.splits)
  show ?thesis
  proof (cases "nxsched_verify_tcb st ht")
    case False
    show ?thesis
    proof (cases ph)
      case None
      with r f False ok show ?thesis by (auto simp: nxsem_restoreholderprio_def Let_def)
    next
      case (Some p)
      with r f False have "nxsem_freeholder cfg s p (log_event (Swarn_stale_handle ht) st) = Some st'"
        by (auto simp: nxsem_restoreholderprio_def Let_def split: option.splits)
      from ledgers_ok_freeholder[OF this] ok show ?thesis by simp
    qed
  next
    case True
    then obtain h where h: "ht = Some h" by (auto simp: nxsched_verify_tcb_def split: option.splits)
    show ?thesis
    proof (cases "sched_priority (tcbs st h) \<noteq> base_priority (tcbs st h)")
      case False
      with r f True h ok show ?thesis by (auto simp: nxsem_restoreholderprio_def)
    next
      case b: True
      show ?thesis
      proof (cases "0 < CONFIG_SEM_NNESTPRIO cfg")
        case False
        with r f True h b ok show ?thesis by (auto simp: nxsem_restoreholderprio_def)
      next
        case N: True
        define c1 where "c1 = (if (case ph of None \<Rightarrow> True | Some p \<Rightarrow> counts (holder_at st p) = 0)
                   then discard_boosts s 0 (tcbs st h)
                   else (case max_boost s (tcbs st h) of
                           (idx, p) \<Rightarrow> if 0 \<le> idx then remove_boost (nat idx) (tcbs st h)
                                       else tcbs st h))"
        have okh: "ledger_ok cfg (tcbs st h)" using ok by (simp add: ledgers_ok_def)
        note le = ledger_edit[OF okh c1_def]
        from restoreholderprio_nested[OF f[unfolded h] N True[unfolded h] b c1_def le(3), of arg]
          r[unfolded h]
        have "tcbs st' = (tcbs st)(h := c1\<lparr>sched_priority := new_priority c1\<rparr>)" by auto
        with ok le(5) show ?thesis by (simp add: ledgers_ok_def)
      qed
    qed
  qed
qed

lemma ledgers_ok_findandfreeholder:
  "nxsem_findandfreeholder cfg s t st = Some st' \<Longrightarrow> ledgers_ok cfg st \<Longrightarrow> ledgers_ok cfg st'"
  using ledgers_ok_freeholder
  by (auto simp: nxsem_findandfreeholder_def split: option.splits if_splits)

lemma ledgers_ok_handlers:
  assumes ok: "ledgers_ok cfg st"
  shows "nxsem_restoreholderprioall cfg p s arg st = Some (r, st') \<Longrightarrow> ledgers_ok cfg st'"
    and "nxsem_restoreholderprio_others cfg p s arg st = Some (r, st') \<Longrightarrow> ledgers_ok cfg st'"
    and "nxsem_restoreholderprio_self cfg p s arg st = Some (r, st') \<Longrightarrow> ledgers_ok cfg st'"
    and "nxsem_recoverholders cfg p s arg st = Some (r, st') \<Longrightarrow> ledgers_ok cfg st'"
    and "nxsem_verifyholder p s arg st = Some (r, st') \<Longrightarrow> ledgers_ok cfg st'"
proof -
  show "nxsem_restoreholderprioall cfg p s arg st = Some (r, st') \<Longrightarrow> ledgers_ok cfg st'"
    using ledgers_ok_restoreholderprio ok by (simp add: nxsem_restoreholderprioall_def)
  show "nxsem_restoreholderprio_others cfg p s arg st = Some (r, st') \<Longrightarrow> ledgers_ok cfg st'"
    using ledgers_ok_restoreholderprio ok
    by (auto simp: nxsem_restoreholderprio_others_def Let_def split: if_splits simp del: holder_at.simps)
  show "nxsem_recoverholders cfg p s arg st = Some (r, st') \<Longrightarrow> ledgers_ok cfg st'"
    using ledgers_ok_freeholder ok by (auto simp: nxsem_recoverholders_def split: option.splits)
  show "nxsem_verifyholder p s arg st = Some (r, st') \<Longrightarrow> ledgers_ok cfg st'"
    using ok by (simp add: nxsem_verifyholder_def)
  show "nxsem_restoreholderprio_self cfg p s arg st = Some (r, st') \<Longrightarrow> ledgers_ok cfg st'"
  proof -
    assume a: "nxsem_restoreholderprio_self cfg p s arg st = Some (r, st')"
    show "ledgers_ok cfg st'"
    proof (cases "htcb (holder_at st p) = Some (this_task st)")
      case False
      with a ok show ?thesis by (simp add: nxsem_restoreholderprio_self_def Let_def del: holder_at.simps)
    next
      case True
      from a True obtain st1 r2 where
        s1: "(if CONFIG_SEM_PREALLOCHOLDERS cfg = 0
               then nxsem_findandfreeholder cfg s (Some (this_task st)) st else Some st) = Some st1"
        and s2: "nxsem_restoreholderprio cfg (Some (this_task st)) s arg st1 = Some (r2, st')"
        by (auto simp: nxsem_restoreholderprio_self_def Let_def split: option.splits simp del: holder_at.simps)
      have "ledgers_ok cfg st1" using s1 ok ledgers_ok_findandfreeholder by (auto split: if_splits)
      with ledgers_ok_restoreholderprio[OF s2] show ?thesis by simp
    qed
  qed
qed

lemma foreach_ledgers_ok:
  assumes inv: "store_inv cfg st" and ok: "ledgers_ok cfg st"
    and step: "\<And>p st. store_inv cfg st \<Longrightarrow> p \<in> set (holder_ptrs cfg st s) \<Longrightarrow>
              htcb (holder_at st p) \<noteq> None \<Longrightarrow>
              \<exists>r st'. handler p s arg st = Some (r, st') \<and> entry_step cfg s p st st'"
    and keep: "\<And>p st r st'. handler p s arg st = Some (r, st') \<Longrightarrow> ledgers_ok cfg st \<Longrightarrow>
              ledgers_ok cfg st'"
  shows "\<exists>r st'. nxsem_foreachholder cfg s handler arg st = Some (r, st') \<and> store_inv cfg st' \<and>
           ledgers_ok cfg st'"
proof (rule foreachholder_entry_rule[where E = "ledgers_ok cfg", OF inv ok])
  fix p st
  assume i: "store_inv cfg st" and e: "ledgers_ok cfg st" and p: "p \<in> set (holder_ptrs cfg st s)"
    and l: "htcb (holder_at st p) \<noteq> None"
  from step[OF i p l] obtain r st' where h: "handler p s arg st = Some (r, st')"
    and es: "entry_step cfg s p st st'" by blast
  from keep[OF h e] h es
  show "\<exists>r st'. handler p s arg st = Some (r, st') \<and> entry_step cfg s p st st' \<and> ledgers_ok cfg st'"
    by blast
qed

lemma tcbs_holder_upd [simp]: "tcbs (holder_upd p f st) = tcbs st"
  by (cases p) (simp_all add: node_upd_def sem_upd_def)

lemma ledgers_ok_holder_upd [simp]: "ledgers_ok cfg (holder_upd p f st) = ledgers_ok cfg st"
  by (rule ledgers_ok_tcbs) simp

lemma tcbs_allocholder:
  assumes "nxsem_allocholder cfg s st = Ok (p, st1)"
  shows "tcbs st1 = tcbs st"
proof -
  define X where "X =
        (if CONFIG_SEM_PREALLOCHOLDERS cfg > 0 then
           (case g_freeholders st of
              Some p \<Rightarrow>
                let st1 = st\<lparr>g_freeholders := flink (g_holderalloc st ! p)\<rparr>;
                    st2 = node_upd p (\<lambda>h. h\<lparr>flink := hhead (sems st1 s)\<rparr>) st1;
                    st3 = sem_upd s (\<lambda>m. m\<lparr>hhead := Some p\<rparr>) st2;
                    st4 = node_upd p (\<lambda>h. h\<lparr>counts := 0\<rparr>) st3
                in (Some (Prealloc p), st4)
            | None \<Rightarrow> (None, log_event Serr_insufficient_holders st))
         else if htcb (holder_at st (Builtin s 0)) = None then
           (Some (Builtin s 0), holder_upd (Builtin s 0) (\<lambda>h. h\<lparr>counts := 0\<rparr>) st)
         else if htcb (holder_at st (Builtin s 1)) = None then
           (Some (Builtin s 1), holder_upd (Builtin s 1) (\<lambda>h. h\<lparr>counts := 0\<rparr>) st)
         else (None, log_event Serr_insufficient_holders st))"
  have t: "tcbs (snd X) = tcbs st"
    unfolding X_def
    by (simp add: node_upd_def sem_upd_def log_event_def Let_def split: option.splits
        del: holder_at.simps holder_upd.simps)
  have "nxsem_allocholder cfg s st = DEBUGASSERT cfg (fst X \<noteq> None) X"
    unfolding nxsem_allocholder_def X_def[symmetric] by (simp add: case_prod_unfold)
  with assms have "X = (p, st1)" by (simp add: DEBUGASSERT_def split: if_splits)
  with t show ?thesis by simp
qed

lemma ledgers_ok_add_holder:
  assumes r: "nxsem_add_holder_tcb cfg ht s st = Some (Ok st')" and ok: "ledgers_ok cfg st"
  shows "ledgers_ok cfg st'"
proof (cases "flags (sems st s) AND PRIOINHERIT_FLAGS_DISABLE = 0")
  case False
  from r have "st' = st" unfolding nxsem_add_holder_tcb_def if_not_P[OF False] by simp
  with ok show ?thesis by simp
next
  case True
  note r1 = r[unfolded nxsem_add_holder_tcb_def if_P[OF True]]
  from r1 obtain x where fa: "nxsem_findorallocateholder cfg s ht st = Some x"
    by (cases "nxsem_findorallocateholder cfg s ht st") simp_all
  note r2 = r1[unfolded fa option.case]
  from r2 obtain po st1 where x: "x = Ok (po, st1)"
    by (cases x) auto
  note r3 = r2[unfolded x result.case prod.case]
  have t1: "tcbs st1 = tcbs st"
  proof (cases "nxsem_findholder cfg s ht st")
    case None
    with fa show ?thesis by (simp add: nxsem_findorallocateholder_def)
  next
    case (Some fo)
    show ?thesis
    proof (cases fo)
      case None
      with Some fa x have "nxsem_allocholder cfg s st = Ok (po, st1)"
        by (simp add: nxsem_findorallocateholder_def)
      then show ?thesis by (rule tcbs_allocholder)
    next
      case (Some q)
      with \<open>nxsem_findholder cfg s ht st = Some fo\<close> fa x show ?thesis
        by (simp add: nxsem_findorallocateholder_def)
    qed
  qed
  have "tcbs st' = tcbs st1"
  proof (cases po)
    case None
    with r3 show ?thesis by simp
  next
    case (Some q)
    from r3[unfolded Some option.case] have
      "st' = holder_upd q (\<lambda>h. h\<lparr>counts := counts h + 1\<rparr>) (holder_upd q (\<lambda>h. h\<lparr>htcb := ht\<rparr>) st1)"
      by simp
    then show ?thesis by (simp del: holder_upd.simps)
  qed
  with t1 ok show ?thesis by (simp add: ledgers_ok_def)
qed

lemma ledgers_ok_release_holder:
  assumes "nxsem_release_holder cfg s st = Some st'" "ledgers_ok cfg st"
  shows "ledgers_ok cfg st'"
  using assms
  by (auto simp: nxsem_release_holder_def Let_def split: option.splits if_splits
      simp del: holder_at.simps holder_upd.simps)

text \<open>Every entry point keeps the ledgers of all threads well formed.\<close>

lemma ledgers_ok_exec_op:
  assumes inv: "store_inv cfg st" and ok: "ledgers_ok cfg st"
    and x: "exec_op cfg x st = Some (Ok st')"
  shows "ledgers_ok cfg st'"
proof (cases x)
  case (Add_holder s)
  with x ledgers_ok_add_holder[OF _ ok] show ?thesis by (simp add: nxsem_add_holder_def)
next
  case (Add_holder_tcb t s)
  with x ledgers_ok_add_holder[OF _ ok] show ?thesis by simp
next
  case (Release_holder s)
  with x ledgers_ok_release_holder[OF _ ok] show ?thesis by auto
next
  case (Boost_priority s)
  from foreach_ledgers_ok[OF inv ok, of s "nxsem_boostholderprio cfg" "Some (this_task st)"]
    boostholderprio_step ledgers_ok_boostholderprio
  obtain r st2 where "nxsem_foreachholder cfg s (nxsem_boostholderprio cfg) (Some (this_task st)) st = Some (r, st2)"
    "ledgers_ok cfg st2" by blast
  with x Boost_priority show ?thesis by (auto simp: nxsem_boost_priority_def Let_def)
next
  case (Canceled stcb s)
  from foreach_ledgers_ok[OF inv ok, of s "nxsem_restoreholderprioall cfg" stcb]
    restoreholderprioall_step ledgers_ok_handlers(1)
  obtain r st2 where "nxsem_foreachholder cfg s (nxsem_restoreholderprioall cfg) stcb st = Some (r, st2)"
    "ledgers_ok cfg st2" by blast
  with x Canceled show ?thesis
    by (auto simp: nxsem_canceled_def DEBUGASSERT_def split: if_splits)
next
  case (Destroyholder s)
  show ?thesis
  proof (cases "0 < CONFIG_SEM_PREALLOCHOLDERS cfg")
    case False
    with x Destroyholder ok show ?thesis
      by (auto simp: nxsem_destroyholder_def DEBUGASSERT_def split: if_splits
          simp del: holder_at.simps holder_upd.simps)
  next
    case True
    from foreach_ledgers_ok[OF inv ok, of s "nxsem_recoverholders cfg" None]
      recoverholders_step ledgers_ok_handlers(4)
    obtain r st2 where "nxsem_foreachholder cfg s (nxsem_recoverholders cfg) None st = Some (r, st2)"
      "ledgers_ok cfg st2" by blast
    with x Destroyholder True ok show ?thesis
      by (auto simp: nxsem_destroyholder_def DEBUGASSERT_def split: if_splits option.splits)
  qed
next
  case (Restore_baseprio stcb s)
  have v: "\<And>st0. store_inv cfg st0 \<Longrightarrow> ledgers_ok cfg st0 \<Longrightarrow>
      \<exists>r st2. nxsem_foreachholder cfg s nxsem_verifyholder None st0 = Some (r, st2) \<and>
              store_inv cfg st2 \<and> ledgers_ok cfg st2"
    using foreach_ledgers_ok[where handler = nxsem_verifyholder and arg = None and s = s and cfg = cfg]
      verifyholder_step ledgers_ok_handlers(5) by blast
  show ?thesis
  proof (cases "up_interrupt_context st")
    case True
    from foreach_ledgers_ok[OF inv ok, of s "nxsem_restoreholderprioall cfg" stcb]
      restoreholderprioall_step ledgers_ok_handlers(1)
    obtain r st2 where "nxsem_foreachholder cfg s (nxsem_restoreholderprioall cfg) stcb st = Some (r, st2)"
      "ledgers_ok cfg st2" by blast
    with x Restore_baseprio True v[OF inv ok] ok show ?thesis
      by (auto simp: nxsem_restore_baseprio_def nxsem_restore_baseprio_irq_def split: if_splits)
  next
    case False
    let ?mid = "(if stcb \<noteq> None then
           (case nxsem_foreachholder cfg s (nxsem_restoreholderprio_others cfg) stcb st of
              None \<Rightarrow> None
            | Some (r1, st1) \<Rightarrow>
                map_option snd (nxsem_foreachholder cfg s (nxsem_restoreholderprio_self cfg) stcb st1))
         else if CONFIG_DEBUG_ASSERTIONS cfg then
           map_option snd (nxsem_foreachholder cfg s nxsem_verifyholder None st)
         else Some st)"
    have "\<exists>st2. ?mid = Some st2 \<and> ledgers_ok cfg st2"
    proof (cases "stcb \<noteq> None")
      case True
      from foreach_ledgers_ok[OF inv ok, of s "nxsem_restoreholderprio_others cfg" stcb]
        restoreholderprio_others_step ledgers_ok_handlers(2)
      obtain r1 st1 where a: "nxsem_foreachholder cfg s (nxsem_restoreholderprio_others cfg) stcb st = Some (r1, st1)"
        and i1: "store_inv cfg st1" and o1: "ledgers_ok cfg st1" by blast
      from foreach_ledgers_ok[OF i1 o1, of s "nxsem_restoreholderprio_self cfg" stcb]
        restoreholderprio_self_step ledgers_ok_handlers(3)
      obtain r2 st2 where "nxsem_foreachholder cfg s (nxsem_restoreholderprio_self cfg) stcb st1 = Some (r2, st2)"
        "ledgers_ok cfg st2" by blast
      with a True show ?thesis by simp
    next
      case False
      with v[OF inv ok] ok show ?thesis by auto
    qed
    then obtain st2 where m: "?mid = Some st2" and o2: "ledgers_ok cfg st2" by blast
    from x Restore_baseprio False have t: "nxsem_restore_baseprio_task cfg stcb s st = Some st'"
      by (auto simp: nxsem_restore_baseprio_def)
    from t[unfolded nxsem_restore_baseprio_task_def Let_def m]
    have "nxsem_findandfreeholder cfg s (Some (this_task st)) st2 = Some st'" by simp
    from ledgers_ok_findandfreeholder[OF this o2] show ?thesis .
  qed
qed

lemma tcbs_fold_node_upd: "tcbs (fold (\<lambda>i. node_upd i (f i)) xs st) = tcbs st"
  by (induction xs arbitrary: st) (simp_all add: node_upd_def)

lemma ledgers_ok_booted: "ledgers_ok cfg (booted cfg)"
proof -
  have "tcbs (booted cfg) = tcbs (boot cfg)"
    unfolding booted_def nxsem_initialize_holders_def Let_def
    using tcbs_fold_node_upd[where f = "\<lambda>i h. h\<lparr>flink := Some (i + 1)\<rparr>"]
    by (simp add: node_upd_def)
  then show ?thesis
    by (simp add: ledgers_ok_def boot_def zero_tcb_def ledger_ok_def ledger_def)
qed

lemma ledgers_ok_exec_ops:
  assumes "store_inv cfg st" "ledgers_ok cfg st" "exec_ops cfg xs st = Some (Ok st')"
  shows "ledgers_ok cfg st'"
  using assms
proof (induction xs arbitrary: st)
  case Nil
  then show ?case by simp
next
  case (Cons x xs)
  from Cons.prems(3) obtain st1 where x: "exec_op cfg x st = Some (Ok st1)"
    and r: "exec_ops cfg xs st1 = Some (Ok st')"
    by (auto split: option.splits result.splits)
  from Cons.IH[OF exec_op_store[OF Cons.prems(1) x] ledgers_ok_exec_op[OF Cons.prems(1,2) x] r]
  show ?case .
qed

lemma reachable_holder_low: "reachable cfg_nested holder_low"
proof -
  have ok1: "runs_ok cfg_nested (booted cfg_nested) [Add_holder_tcb 1 0]" by code_simp
  have r1: "reachable cfg_nested (after cfg_nested (booted cfg_nested) [Add_holder_tcb 1 0])"
    by (rule reachable_after[OF reachable_booted ok1])
  show ?thesis unfolding holder_low_def
    by (rule reachable.rest[OF r1]) (simp add: same_store_def)
qed

lemma reachable_boosted_twice: "reachable cfg_nested boosted_twice"
proof -
  let ?S3 = "after cfg_nested holder_low [Boost_priority 0]"
  let ?S4 = "?S3\<lparr>running := 2\<rparr>"
  have ok2: "runs_ok cfg_nested holder_low [Boost_priority 0]" by code_simp
  have r3: "reachable cfg_nested ?S3" by (rule reachable_after[OF reachable_holder_low ok2])
  have r4: "reachable cfg_nested ?S4" by (rule reachable.rest[OF r3]) (simp add: same_store_def)
  have ok3: "runs_ok cfg_nested ?S4 [Boost_priority 0]" by code_simp
  show ?thesis unfolding boosted_twice_def by (rule reachable_after[OF r4 ok3])
qed

text \<open>
  C3. Nested mode (\<^verbatim>\<open>CONFIG_SEM_NNESTPRIO > 0\<close>), in a reachable state, for a live thread
  \<open>h\<close> whose \<open>sched_priority\<close> differs from its \<open>base_priority\<close> and whose ledger is well
  formed. nxsem_restoreholderprio returns 0 and edits the ledger of \<open>h\<close> as a multiset:

  \<^item> if nxsem_findholder finds no entry of \<open>h\<close>, or its counts are 0, every record of
    the semaphore is removed and every other record is kept;
  \<^item> otherwise, if the ledger has a record of the semaphore, exactly one record is
    removed: one of this semaphore with the highest priority among the records of this
    semaphore (it is in the ledger);
  \<^item> otherwise the ledger is unchanged.

  Afterwards the \<open>sched_priority\<close> of \<open>h\<close> is the maximum of its \<open>base_priority\<close> and the
  priorities of the remaining records; \<^verbatim>\<open>nxsched_set_priority\<close> is called, once, with
  that value, exactly when it differs from the \<open>sched_priority\<close> before. No other thread
  and no holder entry changes, and the ledger stays well formed.
\<close>

theorem C3_restore_one_edits_ledger:
  assumes "reachable cfg st"
    and "0 < CONFIG_SEM_NNESTPRIO cfg"
    and "nxsched_verify_tcb st (Some h)"
    and "sched_priority (tcbs st h) \<noteq> base_priority (tcbs st h)"
    and "ledger_ok cfg (tcbs st h)"
  shows "\<exists>pholder st'.
           nxsem_findholder cfg s (Some h) st = Some pholder \<and>
           nxsem_restoreholderprio cfg (Some h) s arg st = Some (0, st') \<and>
           mset (ledger (tcbs st' h)) =
             (if (case pholder of None \<Rightarrow> True | Some p \<Rightarrow> counts (holder_at st p) = 0)
              then filter_mset (\<lambda>r. boost_sem r \<noteq> s) (mset (ledger (tcbs st h)))
              else if \<exists>r \<in> set (ledger (tcbs st h)). boost_sem r = s
              then mset (ledger (tcbs st h)) -
                     {#\<lparr>boost_sem = s,
                        priority = Max (priority ` {r \<in> set (ledger (tcbs st h)). boost_sem r = s})\<rparr>#}
              else mset (ledger (tcbs st h))) \<and>
           ((\<exists>r \<in> set (ledger (tcbs st h)). boost_sem r = s) \<longrightarrow>
              \<lparr>boost_sem = s,
               priority = Max (priority ` {r \<in> set (ledger (tcbs st h)). boost_sem r = s})\<rparr>
                \<in> set (ledger (tcbs st h))) \<and>
           sched_priority (tcbs st' h) =
             Max (insert (base_priority (tcbs st h)) (priority ` set (ledger (tcbs st' h)))) \<and>
           base_priority (tcbs st' h) = base_priority (tcbs st h) \<and>
           trace st' =
             (if sched_priority (tcbs st' h) \<noteq> sched_priority (tcbs st h)
              then trace st @ [Set_priority h (sched_priority (tcbs st' h))] else trace st) \<and>
           (\<forall>t. t \<noteq> h \<longrightarrow> tcbs st' t = tcbs st t) \<and>
           same_store st st' \<and> ledger_ok cfg (tcbs st' h)"
proof -
  note inv = reachable_store_inv[OF assms(1)]
  define ph where "ph = find (\<lambda>p. htcb (holder_at st p) = Some h) (holder_ptrs cfg st s)"
  have f: "nxsem_findholder cfg s (Some h) st = Some ph"
    using findholder_store[OF inv, of s "Some h"] by (simp add: ph_def)
  define c1 where "c1 = (if (case ph of None \<Rightarrow> True | Some p \<Rightarrow> counts (holder_at st p) = 0)
                   then discard_boosts s 0 (tcbs st h)
                   else (case max_boost s (tcbs st h) of
                           (idx, p) \<Rightarrow> if 0 \<le> idx then remove_boost (nat idx) (tcbs st h)
                                       else tcbs st h))"
  note le = ledger_edit[OF assms(5) c1_def]
  from restoreholderprio_nested[OF f assms(2,3,4) c1_def le(3), of arg] obtain st' where
    r: "nxsem_restoreholderprio cfg (Some h) s arg st = Some (0, st')"
    and t: "tcbs st' = (tcbs st)(h := c1\<lparr>sched_priority := new_priority c1\<rparr>)"
    and tr: "trace st' = (if new_priority c1 \<noteq> sched_priority (tcbs st h)
                        then trace st @ [Set_priority h (new_priority c1)] else trace st)"
    and ss: "same_store st st'" by blast
  have h': "tcbs st' h = c1\<lparr>sched_priority := new_priority c1\<rparr>" using t by simp
  have l': "ledger (tcbs st' h) = ledger c1" unfolding h' by (simp add: ledger_def)
  have len1: "nsem_boosts c1 \<le> length (sem_boosts c1)" using le(5) by (simp add: ledger_ok_def)
  have sp': "sched_priority (tcbs st' h) = new_priority c1" unfolding h' by simp
  have np: "new_priority c1 = Max (insert (base_priority (tcbs st h)) (priority ` set (ledger c1)))"
    using new_priority_Max[OF len1] le(4) by simp
  have ok': "ledger_ok cfg (tcbs st' h)" unfolding h' using le(5) by (simp add: ledger_ok_def ledger_def)
  have b': "base_priority (tcbs st' h) = base_priority (tcbs st h)" unfolding h' using le(4) by simp
  have oth: "\<forall>t. t \<noteq> h \<longrightarrow> tcbs st' t = tcbs st t" using t by simp
  show ?thesis
    apply (rule exI[of _ ph], rule exI[of _ st'])
    unfolding l' sp'
    using f r le(1) le(2) np b' tr oth ss ok'
    apply (intro conjI)
    apply assumption+
    done
qed

text \<open>
  C3, witness: the state \<open>boosted_twice\<close>. The ledger of thread 1 holds the records
  (semaphore 0, priority 5) and (semaphore 0, priority 9); the thread has base priority 3,
  runs at 9 and still holds its count. The restore removes the record of priority 9 and
  sets the priority to 5.
\<close>

theorem C3_witness:
  "ledger (tcbs boosted_twice 1) =
     [\<lparr>boost_sem = 0, priority = 5\<rparr>, \<lparr>boost_sem = 0, priority = 9\<rparr>] \<and>
   sched_priority (tcbs boosted_twice 1) = 9 \<and> base_priority (tcbs boosted_twice 1) = 3 \<and>
   (\<exists>st'. nxsem_restoreholderprio cfg_nested (Some 1) 0 None boosted_twice = Some (0, st') \<and>
          mset (ledger (tcbs st' 1)) = {#\<lparr>boost_sem = 0, priority = 5\<rparr>#} \<and>
          sched_priority (tcbs st' 1) = 5 \<and>
          trace st' = trace boosted_twice @ [Set_priority 1 5])"
proof -
  have N: "0 < CONFIG_SEM_NNESTPRIO cfg_nested" by (simp add: cfg_nested_def)
  have v: "nxsched_verify_tcb boosted_twice (Some 1)" by code_simp
  have b: "sched_priority (tcbs boosted_twice 1) \<noteq> base_priority (tcbs boosted_twice 1)" by code_simp
  have ok: "ledger_ok cfg_nested (tcbs boosted_twice 1)" by code_simp
  have l: "ledger (tcbs boosted_twice 1) =
     [\<lparr>boost_sem = 0, priority = 5\<rparr>, \<lparr>boost_sem = 0, priority = 9\<rparr>]" by code_simp
  have p: "sched_priority (tcbs boosted_twice 1) = 9" "base_priority (tcbs boosted_twice 1) = 3"
    by code_simp+
  have f: "nxsem_findholder cfg_nested 0 (Some 1) boosted_twice = Some (Some (Builtin 0 0))" by code_simp
  have c: "counts (holder_at boosted_twice (Builtin 0 0)) = 1" by code_simp
  have m: "Max (priority ` {r \<in> set [\<lparr>boost_sem = 0, priority = 5\<rparr>, \<lparr>boost_sem = 0, priority = (9 :: prio)\<rparr>].
                 boost_sem r = (0::nat)}) = 9"
  proof -
    have "{r \<in> set [\<lparr>boost_sem = 0, priority = 5\<rparr>, \<lparr>boost_sem = 0, priority = (9 :: prio)\<rparr>].
                 boost_sem r = (0::nat)} =
          {\<lparr>boost_sem = 0, priority = 5\<rparr>, \<lparr>boost_sem = 0, priority = 9\<rparr>}" by auto
    then show ?thesis by simp
  qed
  from C3_restore_one_edits_ledger[OF reachable_boosted_twice N v b ok, of 0 None]
  obtain pholder st' where
    1: "nxsem_findholder cfg_nested 0 (Some 1) boosted_twice = Some pholder"
    and 2: "nxsem_restoreholderprio cfg_nested (Some 1) 0 None boosted_twice = Some (0, st')"
    and 3: "mset (ledger (tcbs st' 1)) =
             (if (case pholder of None \<Rightarrow> True | Some p \<Rightarrow> counts (holder_at boosted_twice p) = 0)
              then filter_mset (\<lambda>r. boost_sem r \<noteq> 0) (mset (ledger (tcbs boosted_twice 1)))
              else if \<exists>r \<in> set (ledger (tcbs boosted_twice 1)). boost_sem r = 0
              then mset (ledger (tcbs boosted_twice 1)) -
                     {#\<lparr>boost_sem = 0,
                        priority = Max (priority ` {r \<in> set (ledger (tcbs boosted_twice 1)). boost_sem r = 0})\<rparr>#}
              else mset (ledger (tcbs boosted_twice 1)))"
    and 4: "sched_priority (tcbs st' 1) =
             Max (insert (base_priority (tcbs boosted_twice 1)) (priority ` set (ledger (tcbs st' 1))))"
    and 5: "trace st' =
             (if sched_priority (tcbs st' 1) \<noteq> sched_priority (tcbs boosted_twice 1)
              then trace boosted_twice @ [Set_priority 1 (sched_priority (tcbs st' 1))] else trace boosted_twice)"
    by blast
  from 1 f have ph: "pholder = Some (Builtin 0 0)" by simp
  have 6: "mset (ledger (tcbs st' 1)) = {#\<lparr>boost_sem = 0, priority = 5\<rparr>#}"
    using 3 unfolding ph l m using c by (simp del: holder_at.simps)
  then have "set (ledger (tcbs st' 1)) = {\<lparr>boost_sem = 0, priority = 5\<rparr>}"
    by (metis set_mset_mset set_mset_single)
  with 4 p have 7: "sched_priority (tcbs st' 1) = 5" by simp
  from 5 7 p have 8: "trace st' = trace boosted_twice @ [Set_priority 1 5]" by simp
  from l p 2 6 7 8 show ?thesis by blast
qed

(*PROOF_CONT*)
end
